theory Spec2Isabelle
  imports Complex_Main "HOL-Library.Sublist" "HOL-Library.Multiset" "HOL-Library.AList"
begin

section \<open>Python values used by the crawler scripts\<close>

text \<open>
  Strings are byte strings (\<open>char list\<close>); the string methods below are Python's on ASCII
  text. An exception is a value: a fallible call returns \<open>py_exn + 'a\<close>, with \<open>Inl\<close> the
  exception raised.
\<close>

datatype py_exn = ValueError | AttributeError | RequestError | ParserError | OSError | ReError

definition is_space :: "char \<Rightarrow> bool" where
  "is_space c = (c \<in> set [CHR 0x09, CHR 0x0A, CHR 0x0B, CHR 0x0C, CHR 0x0D,
                            CHR 0x1C, CHR 0x1D, CHR 0x1E, CHR 0x1F, CHR 0x20])"

definition lstrip :: "string \<Rightarrow> string" where
  "lstrip s = dropWhile is_space s"

definition rstrip :: "string \<Rightarrow> string" where
  "rstrip s = rev (dropWhile is_space (rev s))"

definition strip :: "string \<Rightarrow> string" where
  "strip s = rstrip (lstrip s)"

definition lower_char :: "char \<Rightarrow> char" where
  "lower_char c =
     (let n = (of_char c :: nat) in if 65 \<le> n \<and> n \<le> 90 then char_of (n + 32) else c)"

definition lower :: "string \<Rightarrow> string" where
  "lower s = map lower_char s"

definition startswith :: "string \<Rightarrow> string \<Rightarrow> bool" where
  "startswith s p = (take (length p) s = p)"

definition endswith :: "string \<Rightarrow> string \<Rightarrow> bool" where
  "endswith s t = (length t \<le> length s \<and> drop (length s - length t) s = t)"

text \<open>\<open>s.split(c, 1)\<close> for a one-character separator: the parts before and after the first
  occurrence of \<open>c\<close>, or the whole string alone when \<open>c\<close> does not occur.\<close>

definition split1 :: "char \<Rightarrow> string \<Rightarrow> string list" where
  "split1 c s =
     (if c \<in> set s then [takeWhile (\<lambda>x. x \<noteq> c) s, tl (dropWhile (\<lambda>x. x \<noteq> c) s)] else [s])"

section \<open>The library calls the scripts make\<close>

text \<open>
  \<open>urllib.parse.urlsplit\<close> returns the five components of a URL, or raises
  \<open>ValueError\<close>. A compiled regular expression keeps its source and the \<open>re.I\<close> flag.
  The calls into \<open>urllib\<close>, \<open>re\<close>, \<open>httpx\<close>, \<open>lxml\<close> and \<open>defusedxml\<close> are the fields of
  \<open>env\<close>: the functions of the repository are modelled for any behaviour of these
  libraries and of the network. The site does not change during a run: a request for the
  same address is answered the same way. \<open>body\<close> is the body of a response, which the
  scripts read as \<open>text\<close> or as \<open>content\<close>; \<open>url_served\<close> is the address that answered,
  after redirects.
\<close>

record split_result =
  scheme :: string
  netloc :: string
  path :: string
  query :: string
  fragment :: string

record pattern =
  source :: string
  ignorecase :: bool

record response =
  status_code :: int
  url_served :: string
  body :: string

text \<open>A parsed HTML page, as far as the scripts query it: the result of the XPath
  \<open>//link[@rel='canonical']/@href\<close> (which the source guards with \<open>try\<close>) and of
  \<open>//a[@href]/@href\<close>.\<close>

record html_doc =
  canonical_hrefs :: "py_exn + string list"
  a_hrefs :: "string list"

text \<open>An XML element: namespace, local name, text (\<open>None\<close> for an empty element) and
  children.\<close>

datatype xml =
  Element (ns: "string option") (localname: string) (elem_text: "string option") (children: "xml list")

record env =
  urlsplit :: "string \<Rightarrow> py_exn + split_result"
  urljoin :: "string \<Rightarrow> string \<Rightarrow> py_exn + string"
  re_valid :: "string \<Rightarrow> bool"
  re_search :: "pattern \<Rightarrow> string \<Rightarrow> bool"
  http_get :: "string \<Rightarrow> py_exn + response"
  html_fromstring :: "string \<Rightarrow> py_exn + html_doc"
  safe_fromstring :: "string \<Rightarrow> py_exn + xml"

section \<open>discovery\_all.py: patterns, domain scoping, classification\<close>

text \<open>\<open>read_patterns\<close>, given the columns of the three sheets of the workbook. \<open>zip\<close> stops
  at the shorter column, \<open>dropna\<close> removes the empty cells of the seed column.
  \<open>re.compile\<close> raises \<open>re.error\<close> on a pattern that is not a regular expression
  (\<open>re_valid\<close> says which are); the include patterns are compiled first, in order, then
  the exclude patterns.\<close>

definition compiled_I :: "string \<Rightarrow> pattern" where
  "compiled_I p = \<lparr>source = p, ignorecase = True\<rparr>"

definition re_compile_I :: "env \<Rightarrow> string \<Rightarrow> py_exn + pattern" where
  "re_compile_I e p = (if re_valid e p then Inr (compiled_I p) else Inl ReError)"

fun compile_allow :: "env \<Rightarrow> (string \<times> string) list \<Rightarrow> py_exn + (pattern \<times> string) list" where
  "compile_allow e [] = Inr []"
| "compile_allow e ((p, hint) # rest) =
     (case re_compile_I e p of
        Inl x \<Rightarrow> Inl x
      | Inr c \<Rightarrow>
          (case compile_allow e rest of
             Inl x \<Rightarrow> Inl x
           | Inr cs \<Rightarrow> Inr ((c, hint) # cs)))"

fun compile_block :: "env \<Rightarrow> string list \<Rightarrow> py_exn + pattern list" where
  "compile_block e [] = Inr []"
| "compile_block e (p # rest) =
     (case re_compile_I e p of
        Inl x \<Rightarrow> Inl x
      | Inr c \<Rightarrow>
          (case compile_block e rest of
             Inl x \<Rightarrow> Inl x
           | Inr cs \<Rightarrow> Inr (c # cs)))"

definition read_patterns ::
  "env \<Rightarrow> string list \<Rightarrow> string list \<Rightarrow> string list \<Rightarrow> string option list
     \<Rightarrow> py_exn + (string list \<times> (pattern \<times> string) list \<times> pattern list)" where
  "read_patterns e allowed_path_regex entity_hint disallowed_path_regex seed_url =
     (let seeds = List.map_filter id seed_url in
      case compile_allow e (zip allowed_path_regex entity_hint) of
        Inl x \<Rightarrow> Inl x
      | Inr allow \<Rightarrow>
          (case compile_block e disallowed_path_regex of
             Inl x \<Rightarrow> Inl x
           | Inr block \<Rightarrow> Inr (seeds, allow, block)))"

definition same_domain :: "env \<Rightarrow> string \<Rightarrow> string \<Rightarrow> py_exn + bool" where
  "same_domain e base url =
     (case urlsplit e url of
        Inl x \<Rightarrow> Inl x
      | Inr su \<Rightarrow>
          (case urlsplit e base of
             Inl x \<Rightarrow> Inl x
           | Inr sb \<Rightarrow> Inr (endswith (netloc su) (netloc sb))))"

text \<open>The \<open>for pat, hint in allow\<close> loop of \<open>in_scope\<close>.\<close>

fun scan_allow :: "env \<Rightarrow> string \<Rightarrow> (pattern \<times> string) list \<Rightarrow> bool \<times> string option" where
  "scan_allow e p [] = (False, None)"
| "scan_allow e p ((pat, hint) # rest) =
     (if re_search e pat p then (True, Some hint) else scan_allow e p rest)"

definition in_scope ::
  "env \<Rightarrow> string \<Rightarrow> (pattern \<times> string) list \<Rightarrow> pattern list \<Rightarrow> py_exn + (bool \<times> string option)" where
  "in_scope e url allow block =
     (case urlsplit e url of
        Inl x \<Rightarrow> Inl x
      | Inr su \<Rightarrow>
          (let p = path su in
           if list_ex (\<lambda>b. re_search e b p) block then Inr (False, None)
           else Inr (scan_allow e p allow)))"

section \<open>discovery\_all.py: sitemap resolution\<close>

definition is_linebreak :: "char \<Rightarrow> bool" where
  "is_linebreak c = (c \<in> set [CHR 0x0A, CHR 0x0B, CHR 0x0C, CHR 0x0D, CHR 0x1C, CHR 0x1D, CHR 0x1E])"

text \<open>\<open>str.splitlines\<close>: \<open>cur\<close> is the line read so far; a carriage return followed by a
  line feed is one boundary, and a final boundary opens no empty line.\<close>

fun splitlines_from :: "string \<Rightarrow> string \<Rightarrow> string list" where
  "splitlines_from cur [] = (if cur = [] then [] else [cur])"
| "splitlines_from cur [c] =
     (if is_linebreak c then [cur] else [cur @ [c]])"
| "splitlines_from cur (c # d # cs) =
     (if c = CHR 0x0D \<and> d = CHR 0x0A then cur # splitlines_from [] cs
      else if is_linebreak c then cur # splitlines_from [] (d # cs)
      else splitlines_from (cur @ [c]) (d # cs))"

definition splitlines :: "string \<Rightarrow> string list" where
  "splitlines s = splitlines_from [] s"

text \<open>The loop of \<open>robots_sitemaps\<close> over the lines of robots.txt; \<open>sitemaps\<close> is the list
  built so far. An exception inside it (\<open>[1]\<close> on a list of one part) is caught by the
  \<open>except Exception: pass\<close> around it, and the list built so far is returned.\<close>

fun robots_lines :: "string list \<Rightarrow> string list \<Rightarrow> string list" where
  "robots_lines [] sitemaps = sitemaps"
| "robots_lines (l # ls) sitemaps =
     (let line = strip l in
      if startswith (lower line) ''sitemap:'' then
        (case split1 (CHR '':'') line of
           _ # v # _ \<Rightarrow> robots_lines ls (sitemaps @ [strip v])
         | _ \<Rightarrow> sitemaps)
      else robots_lines ls sitemaps)"

definition robots_sitemaps :: "env \<Rightarrow> string \<Rightarrow> py_exn + string list" where
  "robots_sitemaps e base =
     (case urljoin e base ''/robots.txt'' of
        Inl x \<Rightarrow> Inl x
      | Inr rob \<Rightarrow>
          (case http_get e rob of
             Inl x \<Rightarrow> Inr []
           | Inr r \<Rightarrow>
               if status_code r = 200 then Inr (robots_lines (splitlines (body r)) [])
               else Inr []))"

text \<open>\<open>xml.findall(".//{*}a/{*}b")\<close>: every element below the root whose local name is
  \<open>a\<close>, in document order, and of each its children whose local name is \<open>b\<close>.\<close>

fun descendants :: "xml \<Rightarrow> xml list" where
  "descendants (Element n l t cs) = concat (map (\<lambda>c. c # descendants c) cs)"

definition findall :: "xml \<Rightarrow> string \<Rightarrow> string \<Rightarrow> xml list" where
  "findall x a b =
     concat (map (\<lambda>s. filter (\<lambda>c. localname c = b) (children s))
                 (filter (\<lambda>d. localname d = a) (descendants x)))"

text \<open>The loop of the \<open>urlset\<close> branch. \<open>u.text\<close> is \<open>None\<close> for an empty element, and
  \<open>None.strip()\<close> raises \<open>AttributeError\<close>: the result carries the list built so far and the
  exception, if one was raised.\<close>

fun urlset_loop :: "xml list \<Rightarrow> string list \<Rightarrow> string list \<times> py_exn option" where
  "urlset_loop [] urls = (urls, None)"
| "urlset_loop (u # us) urls =
     (case elem_text u of
        None \<Rightarrow> (urls, Some AttributeError)
      | Some t \<Rightarrow> urlset_loop us (urls @ [strip t]))"

text \<open>
  \<open>parse_sitemap\<close> calls itself for every child of a sitemap index, and a sitemap may
  name itself: the first argument bounds the depth of the recursion, and \<open>None\<close> is a
  resolution that needs a deeper recursion than that. \<open>parse_sitemap_try\<close> is the body of
  the \<open>try\<close>, \<open>index_loop\<close> the loop of the \<open>sitemapindex\<close> branch; both return the list
  \<open>urls\<close> as it stands and the exception that ended them, if any. The \<open>except\<close> clause
  returns \<open>urls\<close>.
\<close>

fun parse_sitemap :: "nat \<Rightarrow> env \<Rightarrow> string \<Rightarrow> (py_exn + string list) option"
  and parse_sitemap_try :: "nat \<Rightarrow> env \<Rightarrow> string \<Rightarrow> (string list \<times> py_exn option) option"
  and index_loop :: "nat \<Rightarrow> env \<Rightarrow> xml list \<Rightarrow> string list \<Rightarrow> (string list \<times> py_exn option) option"
where
  "parse_sitemap 0 e url = None"
| "parse_sitemap (Suc n) e url =
     (case parse_sitemap_try n e url of
        None \<Rightarrow> None
      | Some (urls, _) \<Rightarrow> Some (Inr urls))"
| "parse_sitemap_try n e url =
     (case http_get e url of
        Inl x \<Rightarrow> Some ([], Some x)
      | Inr r \<Rightarrow>
          if status_code r \<noteq> 200 then Some ([], None)
          else
            (case safe_fromstring e (body r) of
               Inl x \<Rightarrow> Some ([], Some x)
             | Inr x \<Rightarrow>
                 if lower (localname x) = ''sitemapindex'' then
                   index_loop n e (findall x ''sitemap'' ''loc'') []
                 else if lower (localname x) = ''urlset'' then
                   Some (urlset_loop (findall x ''url'' ''loc'') [])
                 else Some ([], None)))"
| "index_loop n e [] urls = Some (urls, None)"
| "index_loop n e (sm # sms) urls =
     (case elem_text sm of
        None \<Rightarrow> Some (urls, Some AttributeError)
      | Some t \<Rightarrow>
          (case parse_sitemap n e (strip t) of
             None \<Rightarrow> None
           | Some (Inl x) \<Rightarrow> Some (urls, Some x)
           | Some (Inr us) \<Rightarrow> index_loop n e sms (urls @ us)))"

text \<open>What a sitemap URL serves: the parsed document of a response of status 200, and the
  texts of the elements \<open>findall\<close> selects in it.\<close>

definition xml_at :: "env \<Rightarrow> string \<Rightarrow> xml option" where
  "xml_at e url =
     (case http_get e url of
        Inl x \<Rightarrow> None
      | Inr r \<Rightarrow>
          if status_code r \<noteq> 200 then None
          else (case safe_fromstring e (body r) of Inl x \<Rightarrow> None | Inr x \<Rightarrow> Some x))"

definition loc_texts :: "xml \<Rightarrow> string \<Rightarrow> string \<Rightarrow> string option list" where
  "loc_texts x a b = map elem_text (findall x a b)"

section \<open>discovery\_all.py: the crawl\<close>

text \<open>
  The state of \<open>discover_all\<close>: the local variables \<open>seen\<close>, \<open>hits\<close> (a \<open>dict\<close>, kept as
  an association list in insertion order) and \<open>q\<close>, and the trace of what the loop did
  to the outside: a request for a page, a \<open>time.sleep\<close> (and, in crawler.py, the request
  for an image).
\<close>

datatype event = Fetch string | Download string | Sleep real

record crawl_state =
  seen :: "string set"
  hits :: "(string \<times> string option) list"
  q :: "(string \<times> int) list"
  trace :: "event list"

definition canonical_url :: "env \<Rightarrow> html_doc \<Rightarrow> string \<Rightarrow> string" where
  "canonical_url e doc url =
     (case canonical_hrefs doc of
        Inl x \<Rightarrow> url
      | Inr c \<Rightarrow>
          (case c of
             [] \<Rightarrow> url
           | h # _ \<Rightarrow> (case urljoin e url h of Inl x \<Rightarrow> url | Inr u \<Rightarrow> u)))"

text \<open>The loop over the links of a page (\<open># enqueue children\<close>). It runs inside the
  \<open>try\<close>: an exception of \<open>urljoin\<close> or \<open>same_domain\<close> ends it, and what it appended to the
  queue before stays there.\<close>

fun enqueue_children ::
  "env \<Rightarrow> string \<Rightarrow> string \<Rightarrow> int \<Rightarrow> string list \<Rightarrow> crawl_state \<Rightarrow> crawl_state \<times> py_exn option" where
  "enqueue_children e base can d [] st = (st, None)"
| "enqueue_children e base can d (href # hs) st =
     (case urljoin e can (strip href) of
        Inl x \<Rightarrow> (st, Some x)
      | Inr joined \<Rightarrow>
          (let nxt = (if CHR ''#'' \<in> set joined then hd (split1 (CHR ''#'') joined) else joined) in
           case same_domain e base nxt of
             Inl x \<Rightarrow> (st, Some x)
           | Inr same \<Rightarrow>
               if \<not> same then enqueue_children e base can d hs st
               else if nxt \<notin> seen st then
                 enqueue_children e base can d hs (st\<lparr>q := q st @ [(nxt, d + 1)]\<rparr>)
               else enqueue_children e base can d hs st))"

text \<open>\<open>time.sleep\<close> raises \<open>ValueError\<close> on a negative length. The length is a real
  number here: the infinities and NaN of a \<open>float\<close> are left out.\<close>

definition sleep :: "real \<Rightarrow> crawl_state \<Rightarrow> crawl_state \<times> py_exn option" where
  "sleep throttle st =
     (if throttle < 0 then (st, Some ValueError)
      else (st\<lparr>trace := trace st @ [Sleep throttle]\<rparr>, None))"

text \<open>The body of the \<open>try\<close> of the loop, for the dequeued \<open>(url, d)\<close>: the state it
  leaves and the exception that ended it, if any. \<open>continue\<close> on a status other than 200
  ends it with no exception. \<open>process_page\<close> is what follows \<open>html.fromstring\<close>.\<close>

definition process_page ::
  "env \<Rightarrow> string \<Rightarrow> (pattern \<times> string) list \<Rightarrow> pattern list \<Rightarrow> real \<Rightarrow> string \<Rightarrow> int
     \<Rightarrow> html_doc \<Rightarrow> crawl_state \<Rightarrow> crawl_state \<times> py_exn option" where
  "process_page e base allow block throttle url d doc st1 =
     (let can = canonical_url e doc url;
          st2 = (if can \<notin> seen st1 then st1\<lparr>seen := insert can (seen st1)\<rparr> else st1)
      in case in_scope e can allow block of
           Inl x \<Rightarrow> (st2, Some x)
         | Inr (ok, ent) \<Rightarrow>
             (let st3 = (if ok then st2\<lparr>hits := AList.update can ent (hits st2)\<rparr> else st2)
              in case enqueue_children e base can d (a_hrefs doc) st3 of
                   (st4, Some x) \<Rightarrow> (st4, Some x)
                 | (st4, None) \<Rightarrow> sleep throttle st4))"

definition visit_try ::
  "env \<Rightarrow> string \<Rightarrow> (pattern \<times> string) list \<Rightarrow> pattern list \<Rightarrow> real \<Rightarrow> string \<Rightarrow> int
     \<Rightarrow> crawl_state \<Rightarrow> crawl_state \<times> py_exn option" where
  "visit_try e base allow block throttle url d st0 =
     (let st1 = st0\<lparr>trace := trace st0 @ [Fetch url]\<rparr> in
      case http_get e url of
        Inl x \<Rightarrow> (st1, Some x)
      | Inr r \<Rightarrow>
          if status_code r \<noteq> 200 then (st1, None)
          else
            (case html_fromstring e (body r) of
               Inl x \<Rightarrow> (st1, Some x)
             | Inr doc \<Rightarrow> process_page e base allow block throttle url d doc st1))"

text \<open>One iteration of \<open>while q\<close>. The \<open>except Exception: continue\<close> of the loop drops the
  exception and keeps the state.\<close>

definition bfs_step ::
  "env \<Rightarrow> string \<Rightarrow> (pattern \<times> string) list \<Rightarrow> pattern list \<Rightarrow> int \<Rightarrow> real \<Rightarrow> crawl_state \<Rightarrow> crawl_state" where
  "bfs_step e base allow block max_depth throttle st =
     (case q st of
        [] \<Rightarrow> st
      | (url, d) # rest \<Rightarrow>
          if url \<in> seen st \<or> d > max_depth then st\<lparr>q := rest\<rparr>
          else fst (visit_try e base allow block throttle url d
                      (st\<lparr>q := rest, seen := insert url (seen st)\<rparr>)))"

lemma enqueue_children_q:
  "enqueue_children e base can d hs st = (st', r) \<Longrightarrow>
     \<exists>cs. q st' = q st @ cs \<and> (\<forall>c \<in> set cs. snd c = d + 1)"
proof (induction hs arbitrary: st)
  case Nil
  then show ?case by simp
next
  case (Cons h hs)
  then show ?case
    by (fastforce simp: Let_def split: sum.splits if_splits)
qed

lemma sleep_q: "sleep throttle st = (st', r) \<Longrightarrow> q st' = q st"
  by (auto simp: sleep_def split: if_splits)

lemma process_page_stages:
  assumes "process_page e base allow block throttle url d doc st = (st', r)"
  shows "\<exists>st2. st2 = (if canonical_url e doc url \<notin> seen st
                        then st\<lparr>seen := insert (canonical_url e doc url) (seen st)\<rparr> else st)
           \<and> ((\<exists>x. in_scope e (canonical_url e doc url) allow block = Inl x \<and> st' = st2)
              \<or> (\<exists>ok ent st4 r4.
                    in_scope e (canonical_url e doc url) allow block = Inr (ok, ent)
                    \<and> enqueue_children e base (canonical_url e doc url) d (a_hrefs doc)
                          (if ok then st2\<lparr>hits := AList.update (canonical_url e doc url) ent (hits st2)\<rparr>
                           else st2) = (st4, r4)
                    \<and> (st' = st4 \<or> sleep throttle st4 = (st', r))))"
proof (cases "in_scope e (canonical_url e doc url) allow block")
  case (Inl x)
  with assms show ?thesis by (simp add: process_page_def Let_def)
next
  case (Inr okent)
  obtain ok ent where okent: "okent = (ok, ent)" by (cases okent)
  let ?can = "canonical_url e doc url"
  let ?st2 = "if ?can \<notin> seen st then st\<lparr>seen := insert ?can (seen st)\<rparr> else st"
  let ?st3 = "if ok then ?st2\<lparr>hits := AList.update ?can ent (hits ?st2)\<rparr> else ?st2"
  obtain st4 r4 where en: "enqueue_children e base ?can d (a_hrefs doc) ?st3 = (st4, r4)"
    by (cases "enqueue_children e base ?can d (a_hrefs doc) ?st3")
  from assms Inr okent
  have "(case enqueue_children e base ?can d (a_hrefs doc) ?st3 of
           (st4, Some x) \<Rightarrow> (st4, Some x)
         | (st4, None) \<Rightarrow> sleep throttle st4) = (st', r)"
    by (simp add: process_page_def Let_def)
  with en have "st' = st4 \<or> sleep throttle st4 = (st', r)"
    by (cases r4) simp_all
  with Inr okent en show ?thesis by blast
qed

lemma process_page_q:
  assumes "process_page e base allow block throttle url d doc st = (st', r)"
  shows "\<exists>cs. q st' = q st @ cs \<and> (\<forall>c \<in> set cs. snd c = d + 1)"
proof -
  let ?can = "canonical_url e doc url"
  let ?st2 = "if ?can \<notin> seen st then st\<lparr>seen := insert ?can (seen st)\<rparr> else st"
  have q2: "q ?st2 = q st" by simp
  from process_page_stages [OF assms]
  consider (scope) "st' = ?st2"
    | (run) ok ent st4 r4 where
        "enqueue_children e base ?can d (a_hrefs doc)
           (if ok then ?st2\<lparr>hits := AList.update ?can ent (hits ?st2)\<rparr> else ?st2) = (st4, r4)"
        "st' = st4 \<or> sleep throttle st4 = (st', r)"
    by blast
  then show ?thesis
  proof cases
    case scope
    with q2 show ?thesis by simp
  next
    case run
    from enqueue_children_q [OF run(1)]
    obtain cs where cs: "q st4 = q st @ cs" "\<forall>c \<in> set cs. snd c = d + 1"
      by (auto split: if_splits)
    from run(2) have "q st' = q st4" by (auto dest: sleep_q)
    with cs show ?thesis by auto
  qed
qed

lemma visit_try_q:
  assumes "visit_try e base allow block throttle url d st = (st', r)"
  shows "\<exists>cs. q st' = q st @ cs \<and> (\<forall>c \<in> set cs. snd c = d + 1)"
proof -
  let ?st1 = "st\<lparr>trace := trace st @ [Fetch url]\<rparr>"
  from assms have "st' = ?st1
      \<or> (\<exists>doc. process_page e base allow block throttle url d doc ?st1 = (st', r))"
    by (auto simp: visit_try_def Let_def split: sum.splits if_splits)
  then show ?thesis
  proof
    assume "st' = ?st1"
    then show ?thesis by simp
  next
    assume "\<exists>doc. process_page e base allow block throttle url d doc ?st1 = (st', r)"
    then obtain doc where "process_page e base allow block throttle url d doc ?st1 = (st', r)" ..
    from process_page_q [OF this] show ?thesis by simp
  qed
qed

text \<open>The loop ends: an entry of depth \<open>d\<close> weighs \<open>max_depth + 1 - d\<close>, and an iteration
  replaces the entry it dequeues by entries that weigh less.\<close>

definition weight :: "int \<Rightarrow> string \<times> int \<Rightarrow> nat" where
  "weight max_depth c = nat (max_depth + 1 - snd c)"

lemma queue_step_decreases:
  assumes "cs = [] \<or> (d \<le> max_depth \<and> (\<forall>c \<in> set cs. snd c = d + 1))"
  shows "(mset (map (weight max_depth) (rest @ cs)), mset (map (weight max_depth) ((url, d) # rest)))
           \<in> mult {(a, b). a < (b::nat)}"
proof -
  let ?I = "mset (map (weight max_depth) rest)"
  let ?K = "mset (map (weight max_depth) cs)"
  let ?J = "{#weight max_depth (url, d)#}"
  have "\<forall>k \<in> set_mset ?K. \<exists>j \<in> set_mset ?J. (k, j) \<in> {(a, b). a < (b::nat)}"
    using assms by (auto simp: weight_def)
  then have "(?I + ?K, ?I + ?J) \<in> mult {(a, b). a < (b::nat)}"
    by (intro one_step_implies_mult) simp_all
  then show ?thesis by simp
qed

lemma bfs_step_decreases:
  assumes "q st \<noteq> []"
  shows "(mset (map (weight max_depth) (q (bfs_step e base allow block max_depth throttle st))),
          mset (map (weight max_depth) (q st))) \<in> mult {(a, b). a < (b::nat)}"
proof -
  from assms obtain url d rest where qs: "q st = (url, d) # rest"
    by (cases "q st") auto
  show ?thesis
  proof (cases "url \<in> seen st \<or> d > max_depth")
    case True
    have "(mset (map (weight max_depth) (rest @ [])), mset (map (weight max_depth) ((url, d) # rest)))
            \<in> mult {(a, b). a < (b::nat)}"
      by (rule queue_step_decreases) simp
    with True qs show ?thesis by (simp add: bfs_step_def)
  next
    case False
    obtain st' r where v: "visit_try e base allow block throttle url d
        (st\<lparr>q := rest, seen := insert url (seen st)\<rparr>) = (st', r)"
      by (cases "visit_try e base allow block throttle url d (st\<lparr>q := rest, seen := insert url (seen st)\<rparr>)")
    from visit_try_q [OF v] obtain cs where cs: "q st' = rest @ cs" "\<forall>c \<in> set cs. snd c = d + 1"
      by auto
    have "(mset (map (weight max_depth) (rest @ cs)), mset (map (weight max_depth) ((url, d) # rest)))
            \<in> mult {(a, b). a < (b::nat)}"
      using False cs by (intro queue_step_decreases) auto
    with False qs v cs show ?thesis by (simp add: bfs_step_def)
  qed
qed

function bfs ::
  "env \<Rightarrow> string \<Rightarrow> (pattern \<times> string) list \<Rightarrow> pattern list \<Rightarrow> int \<Rightarrow> real \<Rightarrow> crawl_state \<Rightarrow> crawl_state" where
  "bfs e base allow block max_depth throttle st =
     (if q st = [] then st
      else bfs e base allow block max_depth throttle (bfs_step e base allow block max_depth throttle st))"
  by pat_completeness auto
termination
proof (relation "inv_image (mult {(a, b). a < (b::nat)})
         (\<lambda>(e, base, allow, block, max_depth, throttle, st). mset (map (weight max_depth) (q st)))",
       goal_cases)
  case 1
  show ?case by (intro wf_inv_image wf_mult) (simp add: wf_less)
next
  case (2 e base allow block max_depth throttle st)
  then show ?case using bfs_step_decreases [of st max_depth e base allow block throttle] by simp
qed

declare bfs.simps [simp del]

text \<open>The sitemap phase: the inner loop over the URLs of one sitemap, and the loop over
  the sitemaps robots.txt names. Neither is inside a \<open>try\<close>: an exception of
  \<open>same_domain\<close> or \<open>in_scope\<close> ends \<open>discover_all\<close>.\<close>

fun record_sitemap_urls ::
  "env \<Rightarrow> string \<Rightarrow> (pattern \<times> string) list \<Rightarrow> pattern list \<Rightarrow> string list
     \<Rightarrow> (string \<times> string option) list \<Rightarrow> py_exn + (string \<times> string option) list" where
  "record_sitemap_urls e base allow block [] h = Inr h"
| "record_sitemap_urls e base allow block (u # us) h =
     (case same_domain e base u of
        Inl x \<Rightarrow> Inl x
      | Inr same \<Rightarrow>
          if same then
            (case in_scope e u allow block of
               Inl x \<Rightarrow> Inl x
             | Inr (ok, ent) \<Rightarrow>
                 record_sitemap_urls e base allow block us (if ok then AList.update u ent h else h))
          else record_sitemap_urls e base allow block us h)"

fun sitemap_phase ::
  "nat \<Rightarrow> env \<Rightarrow> string \<Rightarrow> (pattern \<times> string) list \<Rightarrow> pattern list \<Rightarrow> string list
     \<Rightarrow> (string \<times> string option) list \<Rightarrow> (py_exn + (string \<times> string option) list) option" where
  "sitemap_phase limit e base allow block [] h = Some (Inr h)"
| "sitemap_phase limit e base allow block (sm # sms) h =
     (case parse_sitemap limit e sm of
        None \<Rightarrow> None
      | Some (Inl x) \<Rightarrow> Some (Inl x)
      | Some (Inr urls) \<Rightarrow>
          (case record_sitemap_urls e base allow block urls h of
             Inl x \<Rightarrow> Some (Inl x)
           | Inr h' \<Rightarrow> sitemap_phase limit e base allow block sms h'))"

fun seed_queue :: "env \<Rightarrow> string \<Rightarrow> string list \<Rightarrow> (string \<times> int) list \<Rightarrow> py_exn + (string \<times> int) list" where
  "seed_queue e base [] qu = Inr qu"
| "seed_queue e base (s # ss) qu =
     (case same_domain e base s of
        Inl x \<Rightarrow> Inl x
      | Inr same \<Rightarrow> seed_queue e base ss (if same then qu @ [(s, 0)] else qu))"

text \<open>\<open>discover_all\<close>. \<open>limit\<close> bounds the recursion of \<open>parse_sitemap\<close>; the run is \<open>None\<close>
  when a sitemap needs more. \<open>discover_all_run\<close> returns the whole final state,
  \<open>discover_all\<close> the \<open>hits\<close> the function returns.\<close>

definition discover_all_run ::
  "nat \<Rightarrow> env \<Rightarrow> string \<Rightarrow> string list \<Rightarrow> (pattern \<times> string) list \<Rightarrow> pattern list \<Rightarrow> int \<Rightarrow> real
     \<Rightarrow> (py_exn + crawl_state) option" where
  "discover_all_run limit e base seeds allow block max_depth throttle =
     (case robots_sitemaps e base of
        Inl x \<Rightarrow> Some (Inl x)
      | Inr smaps \<Rightarrow>
          (case sitemap_phase limit e base allow block smaps [] of
             None \<Rightarrow> None
           | Some (Inl x) \<Rightarrow> Some (Inl x)
           | Some (Inr h) \<Rightarrow>
               (case seed_queue e base seeds [] of
                  Inl x \<Rightarrow> Some (Inl x)
                | Inr qu \<Rightarrow>
                    Some (Inr (bfs e base allow block max_depth throttle
                                 \<lparr>seen = {}, hits = h, q = qu, trace = []\<rparr>)))))"

definition discover_all ::
  "nat \<Rightarrow> env \<Rightarrow> string \<Rightarrow> string list \<Rightarrow> (pattern \<times> string) list \<Rightarrow> pattern list \<Rightarrow> int \<Rightarrow> real
     \<Rightarrow> (py_exn + (string \<times> string option) list) option" where
  "discover_all limit e base seeds allow block max_depth throttle =
     map_option (map_sum id hits) (discover_all_run limit e base seeds allow block max_depth throttle)"

section \<open>discovery\_cdp.py and discovery\_playwright.py\<close>

text \<open>\<open>canonical_url\<close> of the two browser scripts. Their loops call it with \<open>page.url\<close>, the
  address the browser ended on, and the \<open>href\<close> of the first canonical link, \<open>None\<close>
  when there is none.\<close>

definition cdp_canonical_url :: "env \<Rightarrow> string \<Rightarrow> string option \<Rightarrow> py_exn + string" where
  "cdp_canonical_url e page_url canonical_href =
     (case canonical_href of
        None \<Rightarrow> Inr page_url
      | Some h \<Rightarrow> if h = [] then Inr page_url else urljoin e page_url h)"

section \<open>crawler.py\<close>

text \<open>
  What \<open>scrape_page\<close> reads of the \<open>BeautifulSoup\<close> document: \<open>soup.title\<close> (\<open>None\<close> without a
  title element) and its \<open>string\<close> (\<open>None\<close> for a title that is not one text node), the
  texts of the paragraphs, the \<open>src\<close> of the images and the \<open>href\<close> of the links. The
  environment of crawler.py adds the HTML parser and the creation of the image folder
  (\<open>os.path.exists\<close>, \<open>os.makedirs\<close>).
\<close>

record soup =
  soup_title :: "string option option"
  p_texts :: "string list"
  img_srcs :: "string list"
  link_hrefs :: "string list"

record page_data =
  pd_url :: string
  pd_title :: string
  pd_content :: string
  pd_images :: "string list"
  pd_all_links :: "string list"

record crawler_env = env +
  bs4_parse :: "string \<Rightarrow> soup"
  makedirs :: "string \<Rightarrow> py_exn + unit"

fun join :: "string \<Rightarrow> string list \<Rightarrow> string" where
  "join sep [] = []"
| "join sep [x] = x"
| "join sep (x # y # ys) = x @ sep @ join sep (y # ys)"

text \<open>The loop over the images. The download of an image and the write of its file are
  inside a \<open>try\<close> of their own, which prints what they raise: the loop records the
  request. \<open>urljoin\<close> is outside that \<open>try\<close>.\<close>

fun image_loop ::
  "crawler_env \<Rightarrow> string \<Rightarrow> string list \<Rightarrow> string list \<Rightarrow> event list
     \<Rightarrow> string list \<times> event list \<times> py_exn option" where
  "image_loop e url [] images ev = (images, ev, None)"
| "image_loop e url (src # rest) images ev =
     (case urljoin e url src of
        Inl x \<Rightarrow> (images, ev, Some x)
      | Inr img_url \<Rightarrow> image_loop e url rest (images @ [img_url]) (ev @ [Download img_url]))"

text \<open>The loop over the links; it reads the global \<open>visited\<close>.\<close>

fun link_loop ::
  "crawler_env \<Rightarrow> string set \<Rightarrow> string \<Rightarrow> string \<Rightarrow> string list \<Rightarrow> string list \<Rightarrow> string list
     \<Rightarrow> string list \<times> string list \<times> py_exn option" where
  "link_loop e visited url domain [] links all_links = (links, all_links, None)"
| "link_loop e visited url domain (href # rest) links all_links =
     (case urljoin e url href of
        Inl x \<Rightarrow> (links, all_links, Some x)
      | Inr link \<Rightarrow>
          (case urlsplit e link of
             Inl x \<Rightarrow> (links, all_links @ [link], Some x)
           | Inr sl \<Rightarrow>
               link_loop e visited url domain rest
                 (if netloc sl = domain \<and> link \<notin> visited then links @ [link] else links)
                 (all_links @ [link])))"

text \<open>\<open>scrape_page\<close>: the pair it returns and the requests it made. Every exception is
  caught by the \<open>except\<close> of the function, which returns \<open>(None, [])\<close>.\<close>

definition scrape_page ::
  "crawler_env \<Rightarrow> string set \<Rightarrow> string \<Rightarrow> string
     \<Rightarrow> (page_data option \<times> string list) \<times> event list" where
  "scrape_page e visited url domain =
     (case http_get e url of
        Inl x \<Rightarrow> ((None, []), [Fetch url])
      | Inr r \<Rightarrow>
          if status_code r \<noteq> 200 then ((None, []), [Fetch url])
          else
            (let sp = bs4_parse e (body r) in
             case soup_title sp of
               Some None \<Rightarrow> ((None, []), [Fetch url])
             | t \<Rightarrow>
                 (let title = (case t of Some (Some s) \<Rightarrow> strip s | _ \<Rightarrow> ''No Title'');
                      content = join '' '' (map strip (p_texts sp))
                  in case makedirs e ''images'' of
                       Inl x \<Rightarrow> ((None, []), [Fetch url])
                     | Inr _ \<Rightarrow>
                         (case image_loop e url (img_srcs sp) [] [Fetch url] of
                            (images, ev, Some x) \<Rightarrow> ((None, []), ev)
                          | (images, ev, None) \<Rightarrow>
                              (case link_loop e visited url domain (link_hrefs sp) [] [] of
                                 (links, all_links, Some x) \<Rightarrow> ((None, []), ev)
                               | (links, all_links, None) \<Rightarrow>
                                   ((Some \<lparr>pd_url = url, pd_title = title, pd_content = content,
                                            pd_images = images, pd_all_links = all_links\<rparr>, links),
                                    ev))))))"

text \<open>The state of \<open>crawl\<close>: the module-level set \<open>visited\<close>, the local \<open>to_visit\<close> and
  \<open>results\<close>, and the requests and sleeps so far.\<close>

record crawler_state =
  visited :: "string set"
  to_visit :: "(string \<times> int) list"
  results :: "page_data list"
  requests :: "event list"

definition crawl_step :: "crawler_env \<Rightarrow> string \<Rightarrow> int \<Rightarrow> crawler_state \<Rightarrow> crawler_state" where
  "crawl_step e domain max_depth st =
     (case to_visit st of
        [] \<Rightarrow> st
      | (url, depth) # rest \<Rightarrow>
          if url \<in> visited st \<or> depth > max_depth then st\<lparr>to_visit := rest\<rparr>
          else
            (let v = insert url (visited st) in
             case scrape_page e v url domain of
               ((None, links), ev) \<Rightarrow>
                 st\<lparr>visited := v, to_visit := rest, requests := requests st @ ev @ [Sleep 1]\<rparr>
             | ((Some pd, links), ev) \<Rightarrow>
                 st\<lparr>visited := v,
                    to_visit := rest @ map (\<lambda>link. (link, depth + 1)) (filter (\<lambda>link. link \<notin> v) links),
                    results := results st @ [pd],
                    requests := requests st @ ev @ [Sleep 1]\<rparr>))"

lemma crawl_step_decreases:
  assumes "to_visit st \<noteq> []"
  shows "(mset (map (weight max_depth) (to_visit (crawl_step e domain max_depth st))),
          mset (map (weight max_depth) (to_visit st))) \<in> mult {(a, b). a < (b::nat)}"
proof -
  from assms obtain url d rest where qs: "to_visit st = (url, d) # rest"
    by (cases "to_visit st") auto
  have "\<exists>cs. to_visit (crawl_step e domain max_depth st) = rest @ cs
      \<and> (cs = [] \<or> (d \<le> max_depth \<and> (\<forall>c \<in> set cs. snd c = d + 1)))"
    using qs by (auto simp: crawl_step_def Let_def split: prod.splits option.splits)
  then obtain cs where "to_visit (crawl_step e domain max_depth st) = rest @ cs"
      "cs = [] \<or> (d \<le> max_depth \<and> (\<forall>c \<in> set cs. snd c = d + 1))"
    by blast
  with qs queue_step_decreases [of cs d max_depth rest url] show ?thesis by simp
qed

function crawl_loop :: "crawler_env \<Rightarrow> string \<Rightarrow> int \<Rightarrow> int \<Rightarrow> crawler_state \<Rightarrow> crawler_state" where
  "crawl_loop e domain max_pages max_depth st =
     (if to_visit st \<noteq> [] \<and> int (length (results st)) < max_pages then
        crawl_loop e domain max_pages max_depth (crawl_step e domain max_depth st)
      else st)"
  by pat_completeness auto
termination
proof (relation "inv_image (mult {(a, b). a < (b::nat)})
         (\<lambda>(e, domain, max_pages, max_depth, st). mset (map (weight max_depth) (to_visit st)))",
       goal_cases)
  case 1
  show ?case by (intro wf_inv_image wf_mult) (simp add: wf_less)
next
  case (2 e domain max_pages max_depth st)
  then show ?case using crawl_step_decreases [of st max_depth e domain] by simp
qed

declare crawl_loop.simps [simp del]

text \<open>\<open>crawl\<close>, from the value \<open>visited0\<close> of the global \<open>visited\<close> when it is called: the list
  it returns, the value it leaves in \<open>visited\<close>, and its requests and sleeps.\<close>

definition crawl ::
  "crawler_env \<Rightarrow> string set \<Rightarrow> string \<Rightarrow> int \<Rightarrow> int
     \<Rightarrow> py_exn + (page_data list \<times> string set \<times> event list)" where
  "crawl e visited0 start_url max_pages max_depth =
     (case urlsplit e start_url of
        Inl x \<Rightarrow> Inl x
      | Inr s \<Rightarrow>
          (let st = crawl_loop e (netloc s) max_pages max_depth
                      \<lparr>visited = visited0, to_visit = [(start_url, 0)], results = [], requests = []\<rparr>
           in Inr (results st, visited st, requests st)))"

section \<open>What a run did\<close>

text \<open>The pages a trace requested, in order; the canonical URL \<open>discover_all\<close> computes for
  the page at a URL (\<open>None\<close> when the request fails, is answered with a status other than
  200 or the page does not parse); and the two invariants of the loops: no page is
  requested twice, and every requested page is in the visited set (for crawler.py: and was
  not in it when \<open>crawl\<close> was called).\<close>

fun fetched :: "event list \<Rightarrow> string list" where
  "fetched [] = []"
| "fetched (Fetch u # es) = u # fetched es"
| "fetched (Download u # es) = fetched es"
| "fetched (Sleep t # es) = fetched es"

definition page_canonical :: "env \<Rightarrow> string \<Rightarrow> string option" where
  "page_canonical e url =
     (case http_get e url of
        Inl x \<Rightarrow> None
      | Inr r \<Rightarrow>
          if status_code r \<noteq> 200 then None
          else (case html_fromstring e (body r) of
                  Inl x \<Rightarrow> None
                | Inr doc \<Rightarrow> Some (canonical_url e doc url)))"

definition fetch_once :: "crawl_state \<Rightarrow> bool" where
  "fetch_once st = (distinct (fetched (trace st)) \<and> set (fetched (trace st)) \<subseteq> seen st)"

definition crawl_once :: "string set \<Rightarrow> crawler_state \<Rightarrow> bool" where
  "crawl_once v0 st =
     (distinct (fetched (requests st)) \<and> set (fetched (requests st)) \<subseteq> visited st - v0 \<and> v0 \<subseteq> visited st)"

text \<open>The URLs the sitemaps of robots.txt resolve to, and the invariant of the hit map:
  its keys are distinct, every key is classified in scope with the entity stored for it,
  and every key is in the set \<open>S\<close> or is the canonical URL of a requested page.\<close>

definition sitemap_urls :: "nat \<Rightarrow> env \<Rightarrow> string \<Rightarrow> string list" where
  "sitemap_urls limit e base =
     (case robots_sitemaps e base of
        Inl x \<Rightarrow> []
      | Inr smaps \<Rightarrow>
          concat (map (\<lambda>sm. case parse_sitemap limit e sm of Some (Inr urls) \<Rightarrow> urls | _ \<Rightarrow> []) smaps))"

definition hits_ok ::
  "env \<Rightarrow> (pattern \<times> string) list \<Rightarrow> pattern list \<Rightarrow> string set \<Rightarrow> crawl_state \<Rightarrow> bool" where
  "hits_ok e allow block S st =
     (distinct (map fst (hits st))
      \<and> (\<forall>(k, v) \<in> set (hits st).
            in_scope e k allow block = Inr (True, v)
            \<and> (k \<in> S \<or> (\<exists>u \<in> set (fetched (trace st)). page_canonical e u = Some k))))"

section \<open>A reference library and an example site\<close>

text \<open>
  \<open>py_urlsplit\<close> follows \<open>urllib.parse.urlsplit\<close> of CPython 3.12 on ASCII URLs: leading
  control characters and spaces are stripped, tabs and line breaks removed, a scheme is
  split off when the text before the first colon is one, the network location is what
  follows \<open>//\<close> up to the next \<open>/\<close>, \<open>?\<close> or \<open>#\<close>, then the fragment and the query are cut
  off. A network location with one bracket and not the other raises \<open>ValueError\<close>; the
  validation of a bracketed host is left out.
\<close>

definition is_ascii_alpha :: "char \<Rightarrow> bool" where
  "is_ascii_alpha c = (let n = (of_char c :: nat) in (65 \<le> n \<and> n \<le> 90) \<or> (97 \<le> n \<and> n \<le> 122))"

definition is_scheme_char :: "char \<Rightarrow> bool" where
  "is_scheme_char c =
     (let n = (of_char c :: nat) in is_ascii_alpha c \<or> (48 \<le> n \<and> n \<le> 57) \<or> c \<in> set ''+-.'')"

definition py_urlsplit :: "string \<Rightarrow> py_exn + split_result" where
  "py_urlsplit url0 =
     (let url1 = filter (\<lambda>c. c \<notin> set [CHR 0x09, CHR 0x0A, CHR 0x0D])
                   (dropWhile (\<lambda>c. (of_char c :: nat) \<le> 32) url0);
          pre = takeWhile (\<lambda>c. c \<noteq> CHR '':'') url1;
          has_scheme = (CHR '':'' \<in> set url1 \<and> pre \<noteq> [] \<and> is_ascii_alpha (hd url1)
                          \<and> list_all is_scheme_char pre);
          url2 = (if has_scheme then drop (length pre + 1) url1 else url1);
          has_netloc = (take 2 url2 = ''//'');
          nl = (if has_netloc then takeWhile (\<lambda>c. c \<notin> set ''/?#'') (drop 2 url2) else []);
          url3 = (if has_netloc then dropWhile (\<lambda>c. c \<notin> set ''/?#'') (drop 2 url2) else url2);
          frag = (if CHR ''#'' \<in> set url3 then tl (dropWhile (\<lambda>c. c \<noteq> CHR ''#'') url3) else []);
          url4 = takeWhile (\<lambda>c. c \<noteq> CHR ''#'') url3;
          qry = (if CHR ''?'' \<in> set url4 then tl (dropWhile (\<lambda>c. c \<noteq> CHR ''?'') url4) else []);
          pth = takeWhile (\<lambda>c. c \<noteq> CHR ''?'') url4
      in if (CHR ''['' \<in> set nl) \<noteq> (CHR '']'' \<in> set nl) then Inl ValueError
         else Inr \<lparr>scheme = (if has_scheme then lower pre else []), netloc = nl, path = pth,
                    query = qry, fragment = frag\<rparr>)"

text \<open>A resolver for the references of the example site: absolute, scheme-relative,
  root-relative, and relative without dot segments.\<close>

definition simple_urljoin :: "string \<Rightarrow> string \<Rightarrow> py_exn + string" where
  "simple_urljoin base ref =
     (case py_urlsplit base of
        Inl x \<Rightarrow> Inl x
      | Inr sb \<Rightarrow>
          (case py_urlsplit ref of
             Inl x \<Rightarrow> Inl x
           | Inr sr \<Rightarrow>
               if ref = [] then Inr base
               else if scheme sr \<noteq> [] then Inr ref
               else if netloc sr \<noteq> [] then Inr (scheme sb @ '':'' @ ref)
               else if take 1 ref = ''/'' then Inr (scheme sb @ ''://'' @ netloc sb @ ref)
               else Inr (scheme sb @ ''://'' @ netloc sb
                           @ rev (dropWhile (\<lambda>c. c \<noteq> CHR ''/'') (rev (path sb))) @ ref)))"

text \<open>\<open>pattern.search\<close> for the patterns of the example site: a literal, or \<open>^\<close> and a
  literal.\<close>

definition literal_search :: "pattern \<Rightarrow> string \<Rightarrow> bool" where
  "literal_search p s =
     (let src = (if ignorecase p then lower (source p) else source p);
          t = (if ignorecase p then lower s else s)
      in case src of
           [] \<Rightarrow> True
         | c # lit \<Rightarrow>
             if c = CHR ''^'' then prefix lit t
             else list_ex (prefix src) (suffixes t))"

text \<open>
  The example site: robots.txt names a sitemap index, whose children are a sitemap that
  is missing, one that is not XML, and an index of an index of one URL set. The home page links to
  \<open>/about\<close>, to a plan page under a tracking query (which declares its canonical URL)
  and to a page that is gone; \<open>/promo\<close> is served from another address; two pages link to
  \<open>/plans/family\<close>.
\<close>

definition page :: "string \<Rightarrow> string \<Rightarrow> py_exn + response" where
  "page u b = Inr \<lparr>status_code = 200, url_served = u, body = b\<rparr>"

definition site_get :: "string \<Rightarrow> py_exn + response" where
  "site_get u =
     (if u = ''https://example.com/robots.txt'' then
        page u ''User-agent: *\<newline>Sitemap: https://example.com/sitemap.xml\<newline>''
      else if u = ''https://example.com/sitemap.xml'' then page u ''index''
      else if u = ''https://example.com/sm-broken.xml'' then page u ''broken''
      else if u = ''https://example.com/sm-main.xml'' then page u ''main-index''
      else if u = ''https://example.com/sm-plans.xml'' then page u ''plans-index''
      else if u = ''https://example.com/sm-leaf.xml'' then page u ''leaf''
      else if u = ''https://example.com/'' then page u ''home''
      else if u = ''https://example.com/about'' then page u ''about''
      else if u = ''https://example.com/plans/unlimited?ref=sm'' then page u ''unlimited''
      else if u = ''https://example.com/plans/family'' then page u ''family''
      else if u = ''https://example.com/promo'' then page ''https://example.com/plans/promo'' ''promo''
      else if u = ''https://example.com/old'' then
        Inr \<lparr>status_code = 404, url_served = u, body = []\<rparr>
      else if u = ''https://example.com/sm-missing.xml'' then
        Inr \<lparr>status_code = 404, url_served = u, body = []\<rparr>
      else Inl RequestError)"

definition site_html :: "string \<Rightarrow> py_exn + html_doc" where
  "site_html b =
     (if b = ''home'' then
        Inr \<lparr>canonical_hrefs = Inr [],
             a_hrefs = [''/about'', ''/plans/unlimited?ref=sm'', ''/old'']\<rparr>
      else if b = ''about'' then
        Inr \<lparr>canonical_hrefs = Inr [], a_hrefs = [''/plans/family#top'']\<rparr>
      else if b = ''unlimited'' then
        Inr \<lparr>canonical_hrefs = Inr [''/plans/unlimited''],
             a_hrefs = [''/'', ''/plans/family'', ''https://other.org/x'']\<rparr>
      else if b = ''family'' then Inr \<lparr>canonical_hrefs = Inr [], a_hrefs = []\<rparr>
      else if b = ''promo'' then Inr \<lparr>canonical_hrefs = Inr [], a_hrefs = []\<rparr>
      else Inl ParserError)"

definition loc :: "string \<Rightarrow> xml" where
  "loc t = Element None ''loc'' (Some t) []"

definition site_xml :: "string \<Rightarrow> py_exn + xml" where
  "site_xml b =
     (if b = ''index'' then
        Inr (Element None ''sitemapindex'' None
               [Element None ''sitemap'' None [loc ''https://example.com/sm-missing.xml''],
                Element None ''sitemap'' None [loc ''https://example.com/sm-broken.xml''],
                Element None ''sitemap'' None [loc '' https://example.com/sm-main.xml '']])
      else if b = ''main-index'' then
        Inr (Element None ''sitemapindex'' None
               [Element None ''sitemap'' None [loc ''https://example.com/sm-plans.xml'']])
      else if b = ''plans-index'' then
        Inr (Element None ''sitemapindex'' None
               [Element None ''sitemap'' None [loc ''https://example.com/sm-leaf.xml'']])
      else if b = ''leaf'' then
        Inr (Element None ''urlset'' None
               [Element None ''url'' None [loc ''https://example.com/plans/unlimited?ref=sm''],
                Element None ''url'' None [loc ''https://example.com/about'']])
      else Inl ParserError)"

definition site_env :: env where
  "site_env = \<lparr>urlsplit = py_urlsplit, urljoin = simple_urljoin, re_valid = (\<lambda>p. True),
     re_search = literal_search,
     http_get = site_get, html_fromstring = site_html, safe_fromstring = site_xml\<rparr>"

definition site_allow :: "(pattern \<times> string) list" where
  "site_allow = [(compiled_I ''^/plans/'', ''plan''), (compiled_I ''/plans/family'', ''family'')]"

definition site_block :: "pattern list" where
  "site_block = [compiled_I ''^/plans/legacy'']"

text \<open>The same site as crawler.py reads it.\<close>

definition site_soup :: "string \<Rightarrow> soup" where
  "site_soup b =
     (if b = ''home'' then
        \<lparr>soup_title = Some (Some '' Example ''), p_texts = [''Welcome '', ''to the site''],
          img_srcs = [''/logo.png''], link_hrefs = [''/about'', ''https://other.org/x'']\<rparr>
      else if b = ''about'' then
        \<lparr>soup_title = None, p_texts = [], img_srcs = [''/logo.png''],
          link_hrefs = [''/'', ''/plans/family'']\<rparr>
      else \<lparr>soup_title = Some (Some b), p_texts = [], img_srcs = [], link_hrefs = []\<rparr>)"

definition site_crawler_env :: crawler_env where
  "site_crawler_env = \<lparr>urlsplit = py_urlsplit, urljoin = simple_urljoin, re_valid = (\<lambda>p. True),
     re_search = literal_search,
     http_get = site_get, html_fromstring = site_html, safe_fromstring = site_xml,
     bs4_parse = site_soup, makedirs = (\<lambda>d. Inr ())\<rparr>"

section \<open>Classification\<close>

lemma scan_allow_none:
  "\<forall>r \<in> set allow. \<not> re_search e (fst r) p \<Longrightarrow> scan_allow e p allow = (False, None)"
  by (induction allow) auto

lemma scan_allow_first:
  "i < length allow \<Longrightarrow> re_search e (fst (allow ! i)) p
     \<Longrightarrow> \<forall>j < i. \<not> re_search e (fst (allow ! j)) p
     \<Longrightarrow> scan_allow e p allow = (True, Some (snd (allow ! i)))"
proof (induction allow arbitrary: i)
  case Nil
  then show ?case by simp
next
  case (Cons r rest)
  obtain pat hint where r: "r = (pat, hint)" by (cases r)
  show ?case
  proof (cases i)
    case 0
    with Cons.prems r show ?thesis by simp
  next
    case (Suc k)
    with Cons.prems have "\<not> re_search e (fst ((r # rest) ! 0)) p" by blast
    with r have no: "\<not> re_search e pat p" by simp
    from Suc Cons.prems have "k < length rest" "re_search e (fst (rest ! k)) p"
      "\<forall>j < k. \<not> re_search e (fst (rest ! j)) p"
      by auto
    then have "scan_allow e p rest = (True, Some (snd (rest ! k)))" by (rule Cons.IH)
    with no r Suc show ?thesis by simp
  qed
qed

lemma in_scope_path_only:
  "urlsplit e url = Inr su \<Longrightarrow> urlsplit e url' = Inr su' \<Longrightarrow> path su' = path su
     \<Longrightarrow> in_scope e url' allow block = in_scope e url allow block"
  by (simp add: in_scope_def)

lemma compile_allow_ignorecase:
  "compile_allow e ps = Inr allow \<Longrightarrow> (pat, hint) \<in> set allow \<Longrightarrow> ignorecase pat"
proof (induction ps arbitrary: allow)
  case Nil
  then show ?case by simp
next
  case (Cons ph ps)
  obtain p h where ph: "ph = (p, h)" by (cases ph)
  from Cons.prems(1) ph obtain c cs where c: "re_compile_I e p = Inr c"
      and cs: "compile_allow e ps = Inr cs" and al: "allow = (c, h) # cs"
    by (auto split: sum.splits)
  from c have "ignorecase c" by (auto simp: re_compile_I_def compiled_I_def split: if_splits)
  with Cons.IH [OF cs] Cons.prems(2) al show ?case by auto
qed

lemma compile_block_ignorecase:
  "compile_block e ps = Inr block \<Longrightarrow> b \<in> set block \<Longrightarrow> ignorecase b"
proof (induction ps arbitrary: block)
  case Nil
  then show ?case by simp
next
  case (Cons p ps)
  from Cons.prems(1) obtain c cs where c: "re_compile_I e p = Inr c"
      and cs: "compile_block e ps = Inr cs" and bl: "block = c # cs"
    by (auto split: sum.splits)
  from c have "ignorecase c" by (auto simp: re_compile_I_def compiled_I_def split: if_splits)
  with Cons.IH [OF cs] Cons.prems(2) bl show ?case by auto
qed

lemma read_patterns_ignorecase:
  assumes "read_patterns e a h d s = Inr (seeds', allow', block')"
    and "p \<in> fst ` set allow' \<union> set block'"
  shows "ignorecase p"
proof -
  from assms(1) have "compile_allow e (zip a h) = Inr allow'" "compile_block e d = Inr block'"
    by (auto simp: read_patterns_def Let_def split: sum.splits)
  with assms(2) show ?thesis
    by (auto dest: compile_allow_ignorecase compile_block_ignorecase)
qed

text \<open>
  C2. A URL whose path is matched by a rule of the exclude list is classified
  \<open>(False, None)\<close>, whatever the include rules are and wherever the rule stands in the
  exclude list.
\<close>

theorem exclude_veto:
  assumes "urlsplit e url = Inr su" and "b \<in> set block" and "re_search e b (path su)"
  shows "in_scope e url allow block = Inr (False, None)"
proof -
  from assms(2,3) have "list_ex (\<lambda>b. re_search e b (path su)) block"
    by (auto simp: list_ex_iff)
  with assms(1) show ?thesis by (simp add: in_scope_def)
qed

theorem exclude_veto_witness:
  "in_scope site_env ''https://example.com/plans/legacy-one'' site_allow site_block = Inr (False, None)
   \<and> re_search site_env (fst (site_allow ! 0)) ''/plans/legacy-one''"
proof -
  have s: "urlsplit site_env ''https://example.com/plans/legacy-one''
      = Inr \<lparr>scheme = ''https'', netloc = ''example.com'', path = ''/plans/legacy-one'',
               query = [], fragment = []\<rparr>"
    by code_simp
  have b: "compiled_I ''^/plans/legacy'' \<in> set site_block" by (simp add: site_block_def)
  have m: "re_search site_env (compiled_I ''^/plans/legacy'')
      (path \<lparr>scheme = ''https'', netloc = ''example.com'', path = ''/plans/legacy-one'',
               query = [], fragment = []\<rparr>)"
    by code_simp
  have i: "re_search site_env (fst (site_allow ! 0)) ''/plans/legacy-one''" by code_simp
  from exclude_veto [OF s b m] i show ?thesis by simp
qed

text \<open>
  C3. When no exclude rule matches the path of the URL, the classification is
  \<open>(True, hint)\<close> for the hint of the first include rule, in the order of the list, that
  matches the path, and \<open>(False, None)\<close> when none does. The classification depends on
  the path component alone, and every pattern \<open>read_patterns\<close> compiles carries the
  ignore-case flag.
\<close>

theorem include_first_match:
  assumes "urlsplit e url = Inr su" and "\<forall>b \<in> set block. \<not> re_search e b (path su)"
  shows "(\<forall>i < length allow.
            re_search e (fst (allow ! i)) (path su)
            \<and> (\<forall>j < i. \<not> re_search e (fst (allow ! j)) (path su))
            \<longrightarrow> in_scope e url allow block = Inr (True, Some (snd (allow ! i))))
         \<and> ((\<forall>r \<in> set allow. \<not> re_search e (fst r) (path su))
              \<longrightarrow> in_scope e url allow block = Inr (False, None))
         \<and> (\<forall>url' su'. urlsplit e url' = Inr su' \<and> path su' = path su
              \<longrightarrow> in_scope e url' allow block = in_scope e url allow block)
         \<and> (read_patterns e a h d s = Inr (seeds', allow', block')
              \<longrightarrow> (\<forall>p \<in> fst ` set allow' \<union> set block'. ignorecase p))"
proof -
  from assms have eq: "in_scope e url allow block = Inr (scan_allow e (path su) allow)"
    by (simp add: in_scope_def list_ex_iff)
  have "\<forall>i < length allow.
            re_search e (fst (allow ! i)) (path su)
            \<and> (\<forall>j < i. \<not> re_search e (fst (allow ! j)) (path su))
            \<longrightarrow> in_scope e url allow block = Inr (True, Some (snd (allow ! i)))"
    using eq scan_allow_first [of _ allow e "path su"] by simp
  moreover have "(\<forall>r \<in> set allow. \<not> re_search e (fst r) (path su))
              \<longrightarrow> in_scope e url allow block = Inr (False, None)"
    using eq scan_allow_none [of allow e "path su"] by simp
  moreover have "\<forall>url' su'. urlsplit e url' = Inr su' \<and> path su' = path su
              \<longrightarrow> in_scope e url' allow block = in_scope e url allow block"
    using assms(1) in_scope_path_only by blast
  moreover have "read_patterns e a h d s = Inr (seeds', allow', block')
              \<longrightarrow> (\<forall>p \<in> fst ` set allow' \<union> set block'. ignorecase p)"
    using read_patterns_ignorecase [of e a h d s seeds' allow' block'] by blast
  ultimately show ?thesis by blast
qed

theorem include_first_match_witness:
  "in_scope site_env ''https://example.com/PLANS/family?x=1#y'' site_allow site_block
     = Inr (True, Some ''plan'')
   \<and> re_search site_env (fst (site_allow ! 1)) ''/PLANS/family''
   \<and> in_scope site_env ''https://example.com/PLANS/family'' site_allow site_block
     = Inr (True, Some ''plan'')
   \<and> read_patterns site_env [''^/plans/'', ''/plans/family''] [''plan'', ''family'']
       [''^/plans/legacy''] [Some ''https://example.com/'', None]
     = Inr ([''https://example.com/''], site_allow, site_block)
   \<and> ignorecase (fst (site_allow ! 1))"
proof -
  let ?su = "\<lparr>scheme = ''https'', netloc = ''example.com'', path = ''/PLANS/family'',
               query = ''x=1'', fragment = ''y''\<rparr>"
  let ?su' = "\<lparr>scheme = ''https'', netloc = ''example.com'', path = ''/PLANS/family'',
               query = [], fragment = []\<rparr>"
  have s: "urlsplit site_env ''https://example.com/PLANS/family?x=1#y'' = Inr ?su"
    by code_simp
  have s': "urlsplit site_env ''https://example.com/PLANS/family'' = Inr ?su'"
    by code_simp
  have nb: "\<forall>b \<in> set site_block. \<not> re_search site_env b (path ?su)"
    by code_simp
  have m0: "0 < length site_allow" "re_search site_env (fst (site_allow ! 0)) (path ?su)"
    by code_simp+
  have m1: "re_search site_env (fst (site_allow ! 1)) ''/PLANS/family''"
    by code_simp
  note t = include_first_match [OF s nb, of site_allow]
  from t m0 have r: "in_scope site_env ''https://example.com/PLANS/family?x=1#y'' site_allow site_block
      = Inr (True, Some (snd (site_allow ! 0)))"
    by blast
  have h: "snd (site_allow ! 0) = ''plan''" by (simp add: site_allow_def)
  from t s' have "in_scope site_env ''https://example.com/PLANS/family'' site_allow site_block
      = in_scope site_env ''https://example.com/PLANS/family?x=1#y'' site_allow site_block"
    by simp
  moreover have rp: "read_patterns site_env [''^/plans/'', ''/plans/family''] [''plan'', ''family'']
       [''^/plans/legacy''] [Some ''https://example.com/'', None]
     = Inr ([''https://example.com/''], site_allow, site_block)"
    by code_simp
  moreover have "fst (site_allow ! 1) \<in> fst ` set site_allow \<union> set site_block"
    by (simp add: site_allow_def)
  with include_first_match [OF s nb, where a = "[''^/plans/'', ''/plans/family'']"
      and h = "[''plan'', ''family'']" and d = "[''^/plans/legacy'']"
      and s = "[Some ''https://example.com/'', None]" and seeds' = "[''https://example.com/'']"
      and allow' = site_allow and block' = site_block] rp
  have "ignorecase (fst (site_allow ! 1))" by blast
  ultimately show ?thesis using r h m1 by simp
qed

section \<open>Domain scoping\<close>

lemma endswith_suffix: "endswith s t = suffix t s"
proof
  assume "endswith s t"
  then have "s = take (length s - length t) s @ t"
    by (metis append_take_drop_id endswith_def)
  then show "suffix t s" by (metis suffixI)
next
  assume "suffix t s"
  then obtain zs where "s = zs @ t" by (auto simp: suffix_def)
  then show "endswith s t" by (simp add: endswith_def)
qed

text \<open>
  C10. \<open>same_domain\<close> is true exactly when the network location of the candidate ends
  with the network location of the base, as strings: any text may stand before it, a
  dot or not, and an empty network location of the base accepts every candidate.
\<close>

theorem same_domain_suffix:
  assumes "urlsplit e base = Inr sb" and "urlsplit e url = Inr su"
  shows "same_domain e base url = Inr (suffix (netloc sb) (netloc su))
         \<and> (\<forall>pre. netloc su = pre @ netloc sb \<longrightarrow> same_domain e base url = Inr True)
         \<and> (netloc sb = [] \<longrightarrow> same_domain e base url = Inr True)"
proof -
  from assms have "same_domain e base url = Inr (suffix (netloc sb) (netloc su))"
    by (simp add: same_domain_def endswith_suffix)
  then show ?thesis by (auto simp: suffix_def)
qed

theorem same_domain_suffix_witness:
  "same_domain site_env ''https://example.com'' ''https://evilexample.com/login'' = Inr True
   \<and> same_domain site_env ''example.com'' ''https://other.org/x'' = Inr True
   \<and> same_domain site_env ''https://example.com'' ''https://other.org/x'' = Inr False"
proof -
  let ?b = "\<lparr>scheme = ''https'', netloc = ''example.com'', path = [], query = [], fragment = []\<rparr>"
  let ?n = "\<lparr>scheme = [], netloc = [], path = ''example.com'', query = [], fragment = []\<rparr>"
  let ?u = "\<lparr>scheme = ''https'', netloc = ''evilexample.com'', path = ''/login'',
              query = [], fragment = []\<rparr>"
  let ?o = "\<lparr>scheme = ''https'', netloc = ''other.org'', path = ''/x'', query = [], fragment = []\<rparr>"
  have b: "urlsplit site_env ''https://example.com'' = Inr ?b" by code_simp
  have b0: "urlsplit site_env ''example.com'' = Inr ?n" by code_simp
  have u: "urlsplit site_env ''https://evilexample.com/login'' = Inr ?u" by code_simp
  have o: "urlsplit site_env ''https://other.org/x'' = Inr ?o" by code_simp
  have "netloc ?u = ''evil'' @ netloc ?b" by simp
  with same_domain_suffix [OF b u]
  have 1: "same_domain site_env ''https://example.com'' ''https://evilexample.com/login'' = Inr True"
    by blast
  from same_domain_suffix [OF b0 o]
  have 2: "same_domain site_env ''example.com'' ''https://other.org/x'' = Inr True"
    by simp
  have "\<not> suffix (netloc ?b) (netloc ?o)" by (simp add: suffix_def)
  with same_domain_suffix [OF b o]
  have 3: "same_domain site_env ''https://example.com'' ''https://other.org/x'' = Inr False"
    by simp
  from 1 2 3 show ?thesis by simp
qed

section \<open>Sitemap resolution\<close>

lemma parse_sitemap_no_raise: "parse_sitemap n e url \<noteq> Some (Inl x)"
  by (cases n) (auto split: option.splits prod.splits)

lemma parse_sitemap_failed: "xml_at e url = None \<Longrightarrow> parse_sitemap (Suc n) e url = Some (Inr [])"
  by (auto simp: xml_at_def split: sum.splits if_splits)

lemma urlset_loop_all:
  "map elem_text us = map Some ts \<Longrightarrow> urlset_loop us urls = (urls @ map strip ts, None)"
proof (induction us arbitrary: ts urls)
  case Nil
  then show ?case by simp
next
  case (Cons u us)
  then obtain t ts' where "ts = t # ts'" "elem_text u = Some t" "map elem_text us = map Some ts'"
    by (cases ts) auto
  with Cons.IH [of ts' "urls @ [strip t]"] show ?case by simp
qed

lemma index_loop_all:
  "map elem_text sms = map Some cs
     \<Longrightarrow> \<forall>c \<in> set cs. parse_sitemap n e (strip c) = Some (Inr (res c))
     \<Longrightarrow> index_loop n e sms urls = Some (urls @ concat (map res cs), None)"
proof (induction sms arbitrary: cs urls)
  case Nil
  then show ?case by simp
next
  case (Cons sm sms)
  then obtain c cs' where c: "cs = c # cs'" "elem_text sm = Some c" "map elem_text sms = map Some cs'"
    by (cases cs) auto
  with Cons.prems have "parse_sitemap n e (strip c) = Some (Inr (res c))"
    "\<forall>c \<in> set cs'. parse_sitemap n e (strip c) = Some (Inr (res c))"
    by auto
  with c Cons.IH [of cs' "urls @ res c"] show ?case by simp
qed

lemma parse_sitemap_urlset:
  assumes "xml_at e url = Some x" and "lower (localname x) = ''urlset''"
    and "loc_texts x ''url'' ''loc'' = map Some ls"
  shows "parse_sitemap (Suc n) e url = Some (Inr (map strip ls))"
proof -
  from assms(3) have "urlset_loop (findall x ''url'' ''loc'') [] = ([] @ map strip ls, None)"
    unfolding loc_texts_def by (rule urlset_loop_all)
  with assms(1,2) show ?thesis
    by (auto simp: xml_at_def split: sum.splits if_splits)
qed

lemma parse_sitemap_index:
  assumes "xml_at e url = Some x" and "lower (localname x) = ''sitemapindex''"
    and "loc_texts x ''sitemap'' ''loc'' = map Some cs"
    and "\<forall>c \<in> set cs. parse_sitemap n e (strip c) = Some (Inr (res c))"
  shows "parse_sitemap (Suc n) e url = Some (Inr (concat (map res cs)))"
proof -
  from assms(3,4) have "index_loop n e (findall x ''sitemap'' ''loc'') []
      = Some ([] @ concat (map res cs), None)"
    unfolding loc_texts_def by (rule index_loop_all)
  with assms(1,2) show ?thesis
    by (auto simp: xml_at_def split: sum.splits if_splits)
qed

lemma xml_at_None_iff:
  "xml_at e url = None \<longleftrightarrow>
     (\<exists>x. http_get e url = Inl x)
     \<or> (\<exists>r. http_get e url = Inr r
            \<and> (status_code r \<noteq> 200 \<or> (\<exists>x. safe_fromstring e (body r) = Inl x)))"
  by (auto simp: xml_at_def split: sum.splits)

lemma parse_sitemap_chain:
  assumes top: "xml_at e u = Some x" "lower (localname x) = ''sitemapindex''"
      "loc_texts x ''sitemap'' ''loc'' = map Some cs"
    and mid: "\<forall>c \<in> set cs. \<exists>y. xml_at e (strip c) = Some y \<and> lower (localname y) = ''sitemapindex''
                \<and> loc_texts y ''sitemap'' ''loc'' = map Some (kids c)"
    and low: "\<forall>c \<in> set cs. \<forall>g \<in> set (kids c). \<exists>z. xml_at e (strip g) = Some z
                \<and> lower (localname z) = ''urlset'' \<and> loc_texts z ''url'' ''loc'' = map Some (leaves g)"
  shows "parse_sitemap (Suc (Suc (Suc n))) e u
           = Some (Inr (concat (map (\<lambda>c. concat (map (\<lambda>g. map strip (leaves g)) (kids c))) cs)))"
proof -
  have child: "parse_sitemap (Suc (Suc n)) e (strip c)
      = Some (Inr (concat (map (\<lambda>g. map strip (leaves g)) (kids c))))" if c: "c \<in> set cs" for c
  proof -
    from mid c obtain y where y: "xml_at e (strip c) = Some y" "lower (localname y) = ''sitemapindex''"
        "loc_texts y ''sitemap'' ''loc'' = map Some (kids c)"
      by blast
    have "\<forall>g \<in> set (kids c). parse_sitemap (Suc n) e (strip g) = Some (Inr (map strip (leaves g)))"
    proof
      fix g assume "g \<in> set (kids c)"
      with low c obtain z where "xml_at e (strip g) = Some z" "lower (localname z) = ''urlset''"
          "loc_texts z ''url'' ''loc'' = map Some (leaves g)"
        by blast
      then show "parse_sitemap (Suc n) e (strip g) = Some (Inr (map strip (leaves g)))"
        by (rule parse_sitemap_urlset)
    qed
    with y show ?thesis by (rule parse_sitemap_index)
  qed
  then have "\<forall>c \<in> set cs. parse_sitemap (Suc (Suc n)) e (strip c)
      = Some (Inr (concat (map (\<lambda>g. map strip (leaves g)) (kids c))))"
    by blast
  with top show ?thesis by (rule parse_sitemap_index)
qed

lemma parse_sitemap_failed_child:
  assumes top: "xml_at e u = Some x" "lower (localname x) = ''sitemapindex''"
      "loc_texts x ''sitemap'' ''loc'' = map Some (pre @ c # post)"
    and bad: "xml_at e (strip c) = None"
    and rest: "\<forall>d \<in> set (pre @ post). parse_sitemap (Suc n) e (strip d) = Some (Inr (res d))"
  shows "parse_sitemap (Suc (Suc n)) e u = Some (Inr (concat (map res pre) @ concat (map res post)))"
proof -
  let ?res = "res(c := [])"
  from bad have c: "parse_sitemap (Suc n) e (strip c) = Some (Inr [])"
    by (rule parse_sitemap_failed)
  have same: "?res d = res d" if "d \<in> set (pre @ post)" for d
    using that rest c by (cases "d = c") auto
  have "\<forall>d \<in> set (pre @ c # post). parse_sitemap (Suc n) e (strip d) = Some (Inr (?res d))"
    using rest c same by auto
  with top have "parse_sitemap (Suc (Suc n)) e u = Some (Inr (concat (map ?res (pre @ c # post))))"
    by (rule parse_sitemap_index)
  moreover have "map ?res pre = map res pre" "map ?res post = map res post"
    using same by (auto intro!: map_cong)
  ultimately show ?thesis by simp
qed

lemma robots_sitemaps_returns:
  "urljoin e base ''/robots.txt'' = Inr rob \<Longrightarrow> \<exists>l. robots_sitemaps e base = Inr l"
  by (auto simp: robots_sitemaps_def split: sum.splits)

lemma robots_sitemaps_failed:
  "urljoin e base ''/robots.txt'' = Inr rob \<Longrightarrow> \<forall>r. http_get e rob = Inr r \<longrightarrow> status_code r \<noteq> 200
     \<Longrightarrow> robots_sitemaps e base = Inr []"
  by (auto simp: robots_sitemaps_def split: sum.splits)

text \<open>A resolution that returns within a bound on the recursion returns the same within
  any larger bound.\<close>

lemma index_loop_deeper:
  assumes "\<And>url r. parse_sitemap n e url = Some r \<Longrightarrow> parse_sitemap (Suc n) e url = Some r"
  shows "index_loop n e sms urls = Some r \<Longrightarrow> index_loop (Suc n) e sms urls = Some r"
proof (induction sms arbitrary: urls)
  case Nil
  then show ?case by simp
next
  case (Cons sm sms)
  show ?case
  proof (cases "elem_text sm")
    case None
    with Cons.prems show ?thesis by simp
  next
    case (Some t)
    with Cons.prems obtain c where c: "parse_sitemap n e (strip t) = Some c"
      by (cases "parse_sitemap n e (strip t)") auto
    then have c': "parse_sitemap (Suc n) e (strip t) = Some c" by (rule assms)
    show ?thesis
    proof (cases c)
      case (Inl x)
      with Cons.prems Some c c' show ?thesis by simp
    next
      case (Inr us)
      with Cons.prems Some c have "index_loop n e sms (urls @ us) = Some r" by simp
      then have "index_loop (Suc n) e sms (urls @ us) = Some r" by (rule Cons.IH)
      with Some c' Inr show ?thesis by simp
    qed
  qed
qed

lemma parse_sitemap_deeper:
  "parse_sitemap n e url = Some r \<Longrightarrow> parse_sitemap (Suc n) e url = Some r"
proof (induction n arbitrary: url r)
  case 0
  then show ?case by simp
next
  case (Suc n)
  have loop: "index_loop n e sms urls = Some w \<Longrightarrow> index_loop (Suc n) e sms urls = Some w"
    for sms urls w
    using Suc.IH by (rule index_loop_deeper)
  have body: "parse_sitemap_try (Suc n) e url = Some w" if "parse_sitemap_try n e url = Some w" for w
    using that loop [of _ _ w] by (cases w) (auto split: sum.splits if_splits)
  from Suc.prems obtain w where w: "parse_sitemap_try n e url = Some w"
    by (cases "parse_sitemap_try n e url") auto
  from body [OF w] Suc.prems w show ?case by simp
qed

lemma parse_sitemap_limit_mono:
  "parse_sitemap n e url = Some r \<Longrightarrow> n \<le> m \<Longrightarrow> parse_sitemap m e url = Some r"
proof (induction m)
  case 0
  then show ?case by simp
next
  case (Suc m)
  show ?case
  proof (cases "n = Suc m")
    case True
    with Suc.prems show ?thesis by simp
  next
    case False
    with Suc have "parse_sitemap m e url = Some r" by simp
    then show ?thesis by (rule parse_sitemap_deeper)
  qed
qed

text \<open>
  C7. A sitemap whose root is a URL set resolves to the texts of its \<open>url/loc\<close> entries; one
  whose root is a sitemap index resolves to the results of its \<open>sitemap/loc\<close> entries, one
  after the other; so an index of indexes of URL sets resolves to the leaf URLs, in
  document order, when the recursion may go three deep.
\<close>

theorem sitemap_resolution:
  "(xml_at e u1 = Some x1 \<and> lower (localname x1) = ''urlset''
      \<and> loc_texts x1 ''url'' ''loc'' = map Some ls
     \<longrightarrow> parse_sitemap (Suc n) e u1 = Some (Inr (map strip ls)))
   \<and> (xml_at e u2 = Some x2 \<and> lower (localname x2) = ''sitemapindex''
      \<and> loc_texts x2 ''sitemap'' ''loc'' = map Some cs2
      \<and> (\<forall>c \<in> set cs2. parse_sitemap n e (strip c) = Some (Inr (res c)))
     \<longrightarrow> parse_sitemap (Suc n) e u2 = Some (Inr (concat (map res cs2))))
   \<and> (xml_at e u = Some x \<and> lower (localname x) = ''sitemapindex''
      \<and> loc_texts x ''sitemap'' ''loc'' = map Some cs
      \<and> (\<forall>c \<in> set cs. \<exists>y. xml_at e (strip c) = Some y \<and> lower (localname y) = ''sitemapindex''
                \<and> loc_texts y ''sitemap'' ''loc'' = map Some (kids c))
      \<and> (\<forall>c \<in> set cs. \<forall>g \<in> set (kids c). \<exists>z. xml_at e (strip g) = Some z
                \<and> lower (localname z) = ''urlset'' \<and> loc_texts z ''url'' ''loc'' = map Some (leaves g))
     \<longrightarrow> parse_sitemap (Suc (Suc (Suc n))) e u
           = Some (Inr (concat (map (\<lambda>c. concat (map (\<lambda>g. map strip (leaves g)) (kids c))) cs))))"
  using parse_sitemap_urlset [of e u1 x1 ls n] parse_sitemap_index [of e u2 x2 cs2 n res]
    parse_sitemap_chain [of e u x cs kids leaves n]
  by blast

theorem sitemap_resolution_witness:
  "parse_sitemap 3 site_env ''https://example.com/sm-main.xml''
     = Some (Inr [''https://example.com/plans/unlimited?ref=sm'', ''https://example.com/about''])"
proof -
  let ?top = "Element None ''sitemapindex'' None
     [Element None ''sitemap'' None [loc ''https://example.com/sm-plans.xml'']]"
  let ?mid = "Element None ''sitemapindex'' None
     [Element None ''sitemap'' None [loc ''https://example.com/sm-leaf.xml'']]"
  let ?low = "Element None ''urlset'' None
     [Element None ''url'' None [loc ''https://example.com/plans/unlimited?ref=sm''],
      Element None ''url'' None [loc ''https://example.com/about'']]"
  let ?kids = "\<lambda>c::string. [''https://example.com/sm-leaf.xml'']"
  let ?leaves = "\<lambda>g::string. [''https://example.com/plans/unlimited?ref=sm'', ''https://example.com/about'']"
  have top: "xml_at site_env ''https://example.com/sm-main.xml'' = Some ?top"
    "lower (localname ?top) = ''sitemapindex''"
    "loc_texts ?top ''sitemap'' ''loc'' = map Some [''https://example.com/sm-plans.xml'']"
    by code_simp+
  have mid: "xml_at site_env (strip ''https://example.com/sm-plans.xml'') = Some ?mid"
    "lower (localname ?mid) = ''sitemapindex''"
    "loc_texts ?mid ''sitemap'' ''loc'' = map Some [''https://example.com/sm-leaf.xml'']"
    by code_simp+
  have low: "xml_at site_env (strip ''https://example.com/sm-leaf.xml'') = Some ?low"
    "lower (localname ?low) = ''urlset''"
    "loc_texts ?low ''url'' ''loc''
       = map Some [''https://example.com/plans/unlimited?ref=sm'', ''https://example.com/about'']"
    by code_simp+
  have s: "strip ''https://example.com/plans/unlimited?ref=sm'' = ''https://example.com/plans/unlimited?ref=sm''"
    "strip ''https://example.com/about'' = ''https://example.com/about''"
    by code_simp+
  from sitemap_resolution [where e = site_env and n = 0
      and u = "''https://example.com/sm-main.xml''" and x = "?top"
      and cs = "[''https://example.com/sm-plans.xml'']" and kids = "?kids" and leaves = "?leaves"]
    top mid low
  have "parse_sitemap (Suc (Suc (Suc 0))) site_env ''https://example.com/sm-main.xml''
      = Some (Inr (concat (map (\<lambda>c. concat (map (\<lambda>g. map strip (?leaves g)) (?kids c)))
          [''https://example.com/sm-plans.xml''])))"
    by simp
  with s show ?thesis by (simp add: numeral_3_eq_3)
qed

text \<open>
  C8. \<open>parse_sitemap\<close> raises nothing. A sitemap that cannot be fetched, is answered with a
  status other than 200 or is not XML resolves to the empty list, and in an index it
  contributes nothing while the entries before and after it contribute what they resolve
  to. Once the address of robots.txt is formed, \<open>robots_sitemaps\<close> raises nothing, and
  returns the empty list when robots.txt cannot be fetched or is answered with a status
  other than 200.
\<close>

theorem sitemap_failures_contained:
  "parse_sitemap n e url \<noteq> Some (Inl exn)
   \<and> (xml_at e url = None \<longrightarrow> parse_sitemap (Suc n) e url = Some (Inr []))
   \<and> (xml_at e u = Some x \<and> lower (localname x) = ''sitemapindex''
      \<and> loc_texts x ''sitemap'' ''loc'' = map Some (pre @ c # post)
      \<and> xml_at e (strip c) = None
      \<and> (\<forall>d \<in> set (pre @ post). parse_sitemap (Suc n) e (strip d) = Some (Inr (res d)))
     \<longrightarrow> parse_sitemap (Suc (Suc n)) e u = Some (Inr (concat (map res pre) @ concat (map res post))))
   \<and> (urljoin e base ''/robots.txt'' = Inr rob \<longrightarrow> (\<exists>l. robots_sitemaps e base = Inr l))
   \<and> (urljoin e base ''/robots.txt'' = Inr rob
      \<and> (\<forall>r. http_get e rob = Inr r \<longrightarrow> status_code r \<noteq> 200)
     \<longrightarrow> robots_sitemaps e base = Inr [])"
  using parse_sitemap_no_raise [of n e url exn] parse_sitemap_failed [of e url n]
    parse_sitemap_failed_child [of e u x pre c post n res]
    robots_sitemaps_returns [of e base rob] robots_sitemaps_failed [of e base rob]
  by blast

theorem sitemap_failures_contained_witness:
  "parse_sitemap 4 site_env ''https://example.com/sitemap.xml''
     = Some (Inr [''https://example.com/plans/unlimited?ref=sm'', ''https://example.com/about''])
   \<and> robots_sitemaps site_env ''https://other.org'' = Inr []"
proof -
  let ?idx = "Element None ''sitemapindex'' None
     [Element None ''sitemap'' None [loc ''https://example.com/sm-missing.xml''],
      Element None ''sitemap'' None [loc ''https://example.com/sm-broken.xml''],
      Element None ''sitemap'' None [loc '' https://example.com/sm-main.xml '']]"
  let ?res = "\<lambda>d::string. if d = ''https://example.com/sm-missing.xml'' then []
     else [''https://example.com/plans/unlimited?ref=sm'', ''https://example.com/about'']"
  have top: "xml_at site_env ''https://example.com/sitemap.xml'' = Some ?idx"
    "lower (localname ?idx) = ''sitemapindex''"
    by code_simp+
  have locs: "loc_texts ?idx ''sitemap'' ''loc''
      = map Some ([''https://example.com/sm-missing.xml'']
          @ ''https://example.com/sm-broken.xml'' # ['' https://example.com/sm-main.xml ''])"
    by code_simp
  have bad: "xml_at site_env (strip ''https://example.com/sm-broken.xml'') = None"
    by code_simp
  have r1: "parse_sitemap (Suc 2) site_env (strip ''https://example.com/sm-missing.xml'')
      = Some (Inr (?res ''https://example.com/sm-missing.xml''))"
    by code_simp
  have r2: "parse_sitemap (Suc 2) site_env (strip '' https://example.com/sm-main.xml '')
      = Some (Inr (?res '' https://example.com/sm-main.xml ''))"
    by code_simp
  from r1 r2 have rest: "\<forall>d \<in> set ([''https://example.com/sm-missing.xml'']
        @ ['' https://example.com/sm-main.xml '']).
      parse_sitemap (Suc 2) site_env (strip d) = Some (Inr (?res d))"
    by simp
  have rob: "urljoin site_env ''https://other.org'' ''/robots.txt'' = Inr ''https://other.org/robots.txt''"
    by code_simp
  have "http_get site_env ''https://other.org/robots.txt'' = Inl RequestError"
    by code_simp
  then have gone: "\<forall>r. http_get site_env ''https://other.org/robots.txt'' = Inr r \<longrightarrow> status_code r \<noteq> 200"
    by simp
  note t = sitemap_failures_contained [where e = site_env and n = 2
      and u = "''https://example.com/sitemap.xml''" and x = "?idx"
      and pre = "[''https://example.com/sm-missing.xml'']"
      and c = "''https://example.com/sm-broken.xml''"
      and post = "['' https://example.com/sm-main.xml '']" and res = "?res"
      and base = "''https://other.org''" and rob = "''https://other.org/robots.txt''"]
  from t top locs bad rest
  have "parse_sitemap (Suc (Suc 2)) site_env ''https://example.com/sitemap.xml''
      = Some (Inr (concat (map ?res [''https://example.com/sm-missing.xml''])
          @ concat (map ?res ['' https://example.com/sm-main.xml ''])))"
    by blast
  moreover have "Suc (Suc 2) = 4" by simp
  moreover from t rob gone have "robots_sitemaps site_env ''https://other.org'' = Inr []"
    by blast
  ultimately show ?thesis by simp
qed

section \<open>The crawl loops\<close>

lemma fetched_append: "fetched (a @ b) = fetched a @ fetched b"
  by (induction a rule: fetched.induct) auto

lemma enqueue_children_frame:
  "enqueue_children e base can d hs st = (st', r)
     \<Longrightarrow> seen st' = seen st \<and> hits st' = hits st \<and> trace st' = trace st"
proof (induction hs arbitrary: st)
  case Nil
  then show ?case by simp
next
  case (Cons h hs)
  then show ?case
    by (fastforce simp: Let_def split: sum.splits if_splits)
qed

lemma sleep_frame:
  "sleep throttle st = (st', r)
     \<Longrightarrow> seen st' = seen st \<and> hits st' = hits st \<and> fetched (trace st') = fetched (trace st)"
  by (auto simp: sleep_def fetched_append split: if_splits)

lemma process_page_effect:
  assumes "process_page e base allow block throttle url d doc st = (st', r)"
  shows "fetched (trace st') = fetched (trace st)
         \<and> seen st' = insert (canonical_url e doc url) (seen st)
         \<and> (hits st' = hits st
            \<or> (\<exists>ent. in_scope e (canonical_url e doc url) allow block = Inr (True, ent)
                  \<and> hits st' = AList.update (canonical_url e doc url) ent (hits st)))"
proof -
  let ?can = "canonical_url e doc url"
  let ?st2 = "if ?can \<notin> seen st then st\<lparr>seen := insert ?can (seen st)\<rparr> else st"
  have 2: "seen ?st2 = insert ?can (seen st)" "hits ?st2 = hits st" "trace ?st2 = trace st"
    by auto
  from process_page_stages [OF assms]
  consider (scope) "st' = ?st2"
    | (run) ok ent st4 r4 where "in_scope e ?can allow block = Inr (ok, ent)"
        "enqueue_children e base ?can d (a_hrefs doc)
           (if ok then ?st2\<lparr>hits := AList.update ?can ent (hits ?st2)\<rparr> else ?st2) = (st4, r4)"
        "st' = st4 \<or> sleep throttle st4 = (st', r)"
    by blast
  then show ?thesis
  proof cases
    case scope
    with 2 show ?thesis by simp
  next
    case run
    let ?st3 = "if ok then ?st2\<lparr>hits := AList.update ?can ent (hits ?st2)\<rparr> else ?st2"
    from enqueue_children_frame [OF run(2)]
    have 4: "seen st4 = seen ?st3" "hits st4 = hits ?st3" "trace st4 = trace ?st3"
      by blast+
    from run(3) have 5: "seen st' = seen st4" "hits st' = hits st4"
      "fetched (trace st') = fetched (trace st4)"
      by (auto dest: sleep_frame)
    have 3: "seen ?st3 = insert ?can (seen st)" "trace ?st3 = trace st"
      "hits ?st3 = (if ok then AList.update ?can ent (hits st) else hits st)"
      by auto
    from 3 4 5 have a: "fetched (trace st') = fetched (trace st)"
      "seen st' = insert ?can (seen st)"
      "hits st' = (if ok then AList.update ?can ent (hits st) else hits st)"
      by simp_all
    show ?thesis
    proof (cases ok)
      case True
      with a run(1) show ?thesis by auto
    next
      case False
      with a show ?thesis by simp
    qed
  qed
qed

lemma visit_try_stages:
  assumes "visit_try e base allow block throttle url d st = (st', r)"
  shows "(page_canonical e url = None \<and> st' = st\<lparr>trace := trace st @ [Fetch url]\<rparr>)
         \<or> (\<exists>doc. page_canonical e url = Some (canonical_url e doc url)
               \<and> process_page e base allow block throttle url d doc
                    (st\<lparr>trace := trace st @ [Fetch url]\<rparr>) = (st', r))"
  using assms
  by (auto simp: visit_try_def page_canonical_def Let_def split: sum.splits if_splits)

lemma visit_try_effect:
  assumes "visit_try e base allow block throttle url d st = (st', r)"
  shows "fetched (trace st') = fetched (trace st) @ [url]
         \<and> seen st \<subseteq> seen st'
         \<and> (hits st' = hits st
            \<or> (\<exists>can ent. page_canonical e url = Some can
                  \<and> in_scope e can allow block = Inr (True, ent)
                  \<and> hits st' = AList.update can ent (hits st)))"
proof -
  let ?st1 = "st\<lparr>trace := trace st @ [Fetch url]\<rparr>"
  have 1: "fetched (trace ?st1) = fetched (trace st) @ [url]" "seen ?st1 = seen st"
    "hits ?st1 = hits st"
    by (simp_all add: fetched_append)
  from visit_try_stages [OF assms] show ?thesis
  proof
    assume "page_canonical e url = None \<and> st' = ?st1"
    with 1 show ?thesis by simp
  next
    assume "\<exists>doc. page_canonical e url = Some (canonical_url e doc url)
               \<and> process_page e base allow block throttle url d doc ?st1 = (st', r)"
    then obtain doc where doc: "page_canonical e url = Some (canonical_url e doc url)"
        "process_page e base allow block throttle url d doc ?st1 = (st', r)"
      by blast
    from process_page_effect [OF doc(2)] 1 doc(1) show ?thesis by auto
  qed
qed

lemma bfs_induct_invariant:
  "(\<And>s. P s \<Longrightarrow> P (bfs_step e base allow block max_depth throttle s)) \<Longrightarrow> P st
     \<Longrightarrow> P (bfs e base allow block max_depth throttle st)"
proof (induction e base allow block max_depth throttle st rule: bfs.induct)
  case (1 e base allow block max_depth throttle st)
  show ?case
  proof (cases "q st = []")
    case True
    with "1.prems"(2) show ?thesis by (subst bfs.simps) simp
  next
    case False
    have "P (bfs_step e base allow block max_depth throttle st)"
      using "1.prems"(2) by (rule "1.prems"(1))
    with False "1.IH" "1.prems"(1)
    have "P (bfs e base allow block max_depth throttle
        (bfs_step e base allow block max_depth throttle st))"
      by blast
    with False show ?thesis by (subst bfs.simps) simp
  qed
qed

lemma bfs_step_cases:
  obtains (empty) "q st = []" "bfs_step e base allow block max_depth throttle st = st"
  | (skip) url d rest where "q st = (url, d) # rest" "url \<in> seen st \<or> d > max_depth"
      "bfs_step e base allow block max_depth throttle st = st\<lparr>q := rest\<rparr>"
  | (visit) url d rest st' r where "q st = (url, d) # rest" "url \<notin> seen st" "d \<le> max_depth"
      "visit_try e base allow block throttle url d (st\<lparr>q := rest, seen := insert url (seen st)\<rparr>) = (st', r)"
      "bfs_step e base allow block max_depth throttle st = st'"
proof (cases "q st")
  case Nil
  then show ?thesis using empty by (simp add: bfs_step_def)
next
  case (Cons c rest)
  obtain url d where c: "c = (url, d)" by (cases c)
  show ?thesis
  proof (cases "url \<in> seen st \<or> d > max_depth")
    case True
    with Cons c show ?thesis using skip [of url d rest] by (simp add: bfs_step_def)
  next
    case False
    obtain st' r where v: "visit_try e base allow block throttle url d
        (st\<lparr>q := rest, seen := insert url (seen st)\<rparr>) = (st', r)"
      by (cases "visit_try e base allow block throttle url d (st\<lparr>q := rest, seen := insert url (seen st)\<rparr>)")
    with False Cons c show ?thesis using visit [of url d rest st' r] by (simp add: bfs_step_def)
  qed
qed

lemma bfs_step_fetch_once:
  assumes "fetch_once st"
  shows "fetch_once (bfs_step e base allow block max_depth throttle st)"
proof (cases rule: bfs_step_cases [of st e base allow block max_depth throttle])
  case empty
  with assms show ?thesis by simp
next
  case (skip url d rest)
  with assms show ?thesis by (simp add: fetch_once_def)
next
  case (visit url d rest st' r)
  from visit_try_effect [OF visit(4)]
  have f: "fetched (trace st') = fetched (trace st) @ [url]" and s: "insert url (seen st) \<subseteq> seen st'"
    by simp_all
  from assms visit(2) have "url \<notin> set (fetched (trace st))"
    by (auto simp: fetch_once_def)
  with assms f s have "fetch_once st'" by (auto simp: fetch_once_def)
  with visit(5) show ?thesis by simp
qed

lemma bfs_step_seen_mono: "seen st \<subseteq> seen (bfs_step e base allow block max_depth throttle st)"
proof (cases rule: bfs_step_cases [of st e base allow block max_depth throttle])
  case empty
  then show ?thesis by simp
next
  case (skip url d rest)
  then show ?thesis by simp
next
  case (visit url d rest st' r)
  from visit_try_effect [OF visit(4)] have "insert url (seen st) \<subseteq> seen st'" by simp
  with visit(5) show ?thesis by auto
qed

lemma bfs_seen_mono: "seen st \<subseteq> seen (bfs e base allow block max_depth throttle st)"
proof (rule bfs_induct_invariant [where P = "\<lambda>s. seen st \<subseteq> seen s"])
  fix s :: crawl_state assume "seen st \<subseteq> seen s"
  with bfs_step_seen_mono [of s e base allow block max_depth throttle]
  show "seen st \<subseteq> seen (bfs_step e base allow block max_depth throttle s)" by blast
next
  show "seen st \<subseteq> seen st" by simp
qed

lemma bfs_fetch_once:
  "fetch_once st \<Longrightarrow> fetch_once (bfs e base allow block max_depth throttle st)"
  by (rule bfs_induct_invariant [where P = fetch_once], rule bfs_step_fetch_once)

lemma discover_all_run_bfs:
  assumes "discover_all_run limit e base seeds allow block max_depth throttle = Some (Inr st)"
  shows "\<exists>smaps h qu. robots_sitemaps e base = Inr smaps
           \<and> sitemap_phase limit e base allow block smaps [] = Some (Inr h)
           \<and> seed_queue e base seeds [] = Inr qu
           \<and> st = bfs e base allow block max_depth throttle \<lparr>seen = {}, hits = h, q = qu, trace = []\<rparr>"
  using assms
  by (auto simp: discover_all_run_def split: sum.splits option.splits)

lemma bfs_step_skip_no_fetch:
  "q s = (url, d) # rest \<Longrightarrow> url \<in> seen s
     \<Longrightarrow> trace (bfs_step e base allow block max_depth throttle s) = trace s"
  by (simp add: bfs_step_def)

lemma image_loop_fetched:
  "image_loop e url srcs images ev = (images', ev', r) \<Longrightarrow> fetched ev' = fetched ev"
proof (induction srcs arbitrary: images ev)
  case Nil
  then show ?case by simp
next
  case (Cons src srcs)
  show ?case
  proof (cases "urljoin e url src")
    case (Inl x)
    with Cons.prems show ?thesis by simp
  next
    case (Inr img_url)
    with Cons.prems have "image_loop e url srcs (images @ [img_url]) (ev @ [Download img_url])
        = (images', ev', r)"
      by simp
    from Cons.IH [OF this] show ?thesis by (simp add: fetched_append)
  qed
qed

lemma scrape_page_fetched:
  assumes "scrape_page e v url domain = (res, ev)"
  shows "fetched ev = [url]"
proof -
  have "ev = [Fetch url]
      \<or> (\<exists>srcs images r. image_loop e url srcs [] [Fetch url] = (images, ev, r))"
    using assms unfolding scrape_page_def Let_def
    by (auto split: sum.splits if_splits option.splits prod.splits)
  then show ?thesis by (auto dest: image_loop_fetched)
qed

lemma crawl_step_cases:
  obtains (empty) "to_visit st = []" "crawl_step e domain max_depth st = st"
  | (skip) url d rest where "to_visit st = (url, d) # rest" "url \<in> visited st \<or> d > max_depth"
      "crawl_step e domain max_depth st = st\<lparr>to_visit := rest\<rparr>"
  | (visit) url d rest st' res ev where "to_visit st = (url, d) # rest" "url \<notin> visited st"
      "d \<le> max_depth"
      "scrape_page e (insert url (visited st)) url domain = (res, ev)"
      "crawl_step e domain max_depth st = st'"
      "visited st' = insert url (visited st)" "requests st' = requests st @ ev @ [Sleep 1]"
proof (cases "to_visit st")
  case Nil
  then show ?thesis using empty by (simp add: crawl_step_def)
next
  case (Cons c rest)
  obtain url d where c: "c = (url, d)" by (cases c)
  show ?thesis
  proof (cases "url \<in> visited st \<or> d > max_depth")
    case True
    with Cons c show ?thesis using skip [of url d rest] by (simp add: crawl_step_def)
  next
    case False
    obtain res ev where sp: "scrape_page e (insert url (visited st)) url domain = (res, ev)"
      by (cases "scrape_page e (insert url (visited st)) url domain")
    obtain pd links where res: "res = (pd, links)" by (cases res)
    have "visited (crawl_step e domain max_depth st) = insert url (visited st)
        \<and> requests (crawl_step e domain max_depth st) = requests st @ ev @ [Sleep 1]"
      using False Cons c sp res by (cases pd) (simp_all add: crawl_step_def Let_def)
    with False Cons c sp show ?thesis
      using visit [of url d rest res ev "crawl_step e domain max_depth st"] by simp
  qed
qed

lemma crawl_step_visited_mono: "visited st \<subseteq> visited (crawl_step e domain max_depth st)"
  by (cases rule: crawl_step_cases [of st e domain max_depth]) auto

lemma crawl_step_once:
  assumes "crawl_once v0 st"
  shows "crawl_once v0 (crawl_step e domain max_depth st)"
proof (cases rule: crawl_step_cases [of st e domain max_depth])
  case empty
  with assms show ?thesis by simp
next
  case (skip url d rest)
  with assms show ?thesis by (simp add: crawl_once_def)
next
  case (visit url d rest st' res ev)
  from scrape_page_fetched [OF visit(4)] visit(7)
  have f: "fetched (requests st') = fetched (requests st) @ [url]" by (simp add: fetched_append)
  from assms visit(2) have "url \<notin> set (fetched (requests st))" "url \<notin> v0"
    by (auto simp: crawl_once_def)
  with assms f visit(6) have "crawl_once v0 st'" by (auto simp: crawl_once_def)
  with visit(5) show ?thesis by simp
qed

lemma crawl_loop_invariant:
  "(\<And>s. P s \<Longrightarrow> P (crawl_step e domain max_depth s)) \<Longrightarrow> P st
     \<Longrightarrow> P (crawl_loop e domain max_pages max_depth st)"
proof (induction e domain max_pages max_depth st rule: crawl_loop.induct)
  case (1 e domain max_pages max_depth st)
  show ?case
  proof (cases "to_visit st \<noteq> [] \<and> int (length (results st)) < max_pages")
    case False
    with "1.prems"(2) show ?thesis by (subst crawl_loop.simps) auto
  next
    case True
    have "P (crawl_step e domain max_depth st)"
      using "1.prems"(2) by (rule "1.prems"(1))
    with True "1.IH" "1.prems"(1)
    have "P (crawl_loop e domain max_pages max_depth (crawl_step e domain max_depth st))"
      by blast
    with True show ?thesis by (subst crawl_loop.simps) simp
  qed
qed

lemma crawl_result:
  assumes "crawl e v0 start_url max_pages max_depth = Inr (rs, v1, ev)"
  shows "distinct (fetched ev) \<and> set (fetched ev) \<subseteq> v1 - v0 \<and> v0 \<subseteq> v1"
proof -
  from assms obtain s where s: "urlsplit e start_url = Inr s"
    by (auto simp: crawl_def split: sum.splits)
  let ?init = "\<lparr>visited = v0, to_visit = [(start_url, 0)], results = [], requests = []\<rparr>"
  let ?st = "crawl_loop e (netloc s) max_pages max_depth ?init"
  have "crawl_once v0 ?st"
  proof (rule crawl_loop_invariant [where P = "crawl_once v0"])
    fix c :: crawler_state assume "crawl_once v0 c"
    then show "crawl_once v0 (crawl_step e (netloc s) max_depth c)" by (rule crawl_step_once)
  next
    show "crawl_once v0 ?init" by (simp add: crawl_once_def)
  qed
  moreover from assms s have "v1 = visited ?st" "ev = requests ?st"
    by (simp_all add: crawl_def Let_def)
  ultimately show ?thesis by (simp add: crawl_once_def)
qed

lemma crawl_step_skip_no_fetch:
  "to_visit c = (url, d) # rest \<Longrightarrow> url \<in> visited c
     \<Longrightarrow> requests (crawl_step ce domain max_depth c) = requests c"
  by (simp add: crawl_step_def)

text \<open>
  C1. The loop of \<open>discover_all\<close> ends, whatever the site, and requests no page twice: in
  a run no page is requested twice by the loop, and every page it requested is in \<open>seen\<close>; an iteration that dequeues a URL already in \<open>seen\<close> requests
  nothing. The same holds for \<open>crawl\<close> of crawler.py and its \<open>visited\<close> (the pages of a run
  are also none of those visited before it). The requests are those the loop makes for
  dequeued URLs: the sitemap requests of \<open>discover_all\<close> and the image downloads of
  \<open>scrape_page\<close> are not deduplicated.
\<close>

theorem fetch_at_most_once:
  "distinct (fetched (trace (bfs e base allow block max_depth throttle
                               \<lparr>seen = {}, hits = h, q = qu, trace = []\<rparr>)))
   \<and> (discover_all_run limit e base seeds allow block max_depth throttle = Some (Inr st)
      \<longrightarrow> distinct (fetched (trace st)) \<and> set (fetched (trace st)) \<subseteq> seen st)
   \<and> (q s = (url, d) # rest \<and> url \<in> seen s
      \<longrightarrow> trace (bfs_step e base allow block max_depth throttle s) = trace s)
   \<and> (crawl ce vis start_url max_pages max_depth' = Inr (rs, vis', ev)
      \<longrightarrow> distinct (fetched ev) \<and> set (fetched ev) \<subseteq> vis' - vis)
   \<and> (to_visit c = (url', d') # rest' \<and> url' \<in> visited c
      \<longrightarrow> requests (crawl_step ce domain max_depth' c) = requests c)"
proof -
  have "distinct (fetched (trace st)) \<and> set (fetched (trace st)) \<subseteq> seen st"
    if run: "discover_all_run limit e base seeds allow block max_depth throttle = Some (Inr st)"
  proof -
    from discover_all_run_bfs [OF run] obtain h qu where
      st: "st = bfs e base allow block max_depth throttle \<lparr>seen = {}, hits = h, q = qu, trace = []\<rparr>"
      by blast
    have "fetch_once \<lparr>seen = {}, hits = h, q = qu, trace = []\<rparr>" by (simp add: fetch_once_def)
    then have "fetch_once st" unfolding st by (rule bfs_fetch_once)
    then show ?thesis by (simp add: fetch_once_def)
  qed
  moreover have "distinct (fetched (trace (bfs e base allow block max_depth throttle
                               \<lparr>seen = {}, hits = h, q = qu, trace = []\<rparr>)))"
  proof -
    have "fetch_once \<lparr>seen = {}, hits = h, q = qu, trace = []\<rparr>" by (simp add: fetch_once_def)
    then have "fetch_once (bfs e base allow block max_depth throttle
        \<lparr>seen = {}, hits = h, q = qu, trace = []\<rparr>)"
      by (rule bfs_fetch_once)
    then show ?thesis by (simp add: fetch_once_def)
  qed
  ultimately show ?thesis
    using bfs_step_skip_no_fetch [of s url d rest e base allow block max_depth throttle]
      crawl_result [of ce vis start_url max_pages max_depth' rs vis' ev]
      crawl_step_skip_no_fetch [of c url' d' rest' ce domain max_depth']
    by blast
qed

theorem fetch_at_most_once_witness:
  "(\<exists>st. discover_all_run 4 site_env ''https://example.com'' [''https://example.com/'']
            site_allow site_block 2 0.75 = Some (Inr st)
         \<and> fetched (trace st) = [''https://example.com/'', ''https://example.com/about'',
              ''https://example.com/plans/unlimited?ref=sm'', ''https://example.com/old'',
              ''https://example.com/plans/family'']
         \<and> distinct (fetched (trace st)))
   \<and> (\<exists>rs v1 ev. crawl site_crawler_env {} ''https://example.com/'' 20 2 = Inr (rs, v1, ev)
         \<and> fetched ev = [''https://example.com/'', ''https://example.com/about'',
              ''https://example.com/plans/family'']
         \<and> distinct (fetched ev))"
proof -
  have "map_option (map_sum id (\<lambda>st. fetched (trace st)))
      (discover_all_run 4 site_env ''https://example.com'' [''https://example.com/'']
         site_allow site_block 2 0.75)
      = Some (Inr [''https://example.com/'', ''https://example.com/about'',
              ''https://example.com/plans/unlimited?ref=sm'', ''https://example.com/old'',
              ''https://example.com/plans/family''])"
    by code_simp
  then obtain st where st: "discover_all_run 4 site_env ''https://example.com''
        [''https://example.com/''] site_allow site_block 2 0.75 = Some (Inr st)"
      "fetched (trace st) = [''https://example.com/'', ''https://example.com/about'',
              ''https://example.com/plans/unlimited?ref=sm'', ''https://example.com/old'',
              ''https://example.com/plans/family'']"
    by (cases "discover_all_run 4 site_env ''https://example.com'' [''https://example.com/'']
         site_allow site_block 2 0.75") (auto simp: map_sum_def split: sum.splits)
  have "map_sum id (\<lambda>(rs, v1, ev). fetched ev)
      (crawl site_crawler_env {} ''https://example.com/'' 20 2)
      = Inr [''https://example.com/'', ''https://example.com/about'',
              ''https://example.com/plans/family'']"
    by code_simp
  then obtain rs v1 ev where cr: "crawl site_crawler_env {} ''https://example.com/'' 20 2 = Inr (rs, v1, ev)"
      "fetched ev = [''https://example.com/'', ''https://example.com/about'',
              ''https://example.com/plans/family'']"
    by (cases "crawl site_crawler_env {} ''https://example.com/'' 20 2")
      (auto simp: map_sum_def split: sum.splits)
  note t = fetch_at_most_once [where limit = 4 and e = site_env and st = st
      and base = "''https://example.com''" and seeds = "[''https://example.com/'']"
      and allow = site_allow and block = site_block and max_depth = 2 and throttle = "0.75"
      and ce = site_crawler_env and vis = "{}" and start_url = "''https://example.com/''"
      and max_pages = 20 and max_depth' = 2 and rs = rs and vis' = v1 and ev = ev]
  from t [THEN conjunct2, THEN conjunct1] st(1) have "distinct (fetched (trace st))" by blast
  moreover from t [THEN conjunct2, THEN conjunct2, THEN conjunct2, THEN conjunct1] cr(1)
  have "distinct (fetched ev)" by blast
  ultimately show ?thesis using st cr by blast
qed

section \<open>The hit map\<close>

lemma set_update_subset: "set (AList.update k v al) \<subseteq> insert (k, v) (set al)"
  by (induction al) auto

lemma record_sitemap_urls_inv:
  assumes "record_sitemap_urls e base allow block urls h = Inr h'"
    and "distinct (map fst h)"
    and "\<forall>(k, v) \<in> set h. in_scope e k allow block = Inr (True, v) \<and> k \<in> S"
    and "{u \<in> set urls. same_domain e base u = Inr True} \<subseteq> S"
  shows "distinct (map fst h')
         \<and> (\<forall>(k, v) \<in> set h'. in_scope e k allow block = Inr (True, v) \<and> k \<in> S)"
  using assms
proof (induction urls arbitrary: h)
  case Nil
  then show ?case by simp
next
  case (Cons u us)
  from Cons.prems(1) obtain same where same: "same_domain e base u = Inr same"
    by (cases "same_domain e base u") auto
  from Cons.prems(4) have sub: "{u \<in> set us. same_domain e base u = Inr True} \<subseteq> S" by auto
  show ?case
  proof (cases same)
    case False
    with Cons.prems(1) same have "record_sitemap_urls e base allow block us h = Inr h'" by simp
    from Cons.IH [OF this Cons.prems(2,3) sub] show ?thesis .
  next
    case True
    with Cons.prems(4) same have uS: "u \<in> S" by auto
    from Cons.prems(1) same True obtain ok ent where sc: "in_scope e u allow block = Inr (ok, ent)"
      by (cases "in_scope e u allow block") auto
    let ?h = "if ok then AList.update u ent h else h"
    from Cons.prems(1) same True sc have r: "record_sitemap_urls e base allow block us ?h = Inr h'"
      by simp
    have d: "distinct (map fst ?h)" using Cons.prems(2) by (simp add: distinct_update)
    have "\<forall>(k, v) \<in> set ?h. in_scope e k allow block = Inr (True, v) \<and> k \<in> S"
      using Cons.prems(3) sc uS set_update_subset [of u ent h] by (cases ok) auto
    from Cons.IH [OF r d this sub] show ?thesis .
  qed
qed

lemma sitemap_phase_inv:
  assumes "sitemap_phase limit e base allow block smaps h = Some (Inr h')"
    and "distinct (map fst h)"
    and "\<forall>(k, v) \<in> set h. in_scope e k allow block = Inr (True, v) \<and> k \<in> S"
    and "\<forall>sm \<in> set smaps. \<forall>urls. parse_sitemap limit e sm = Some (Inr urls)
           \<longrightarrow> {u \<in> set urls. same_domain e base u = Inr True} \<subseteq> S"
  shows "distinct (map fst h')
         \<and> (\<forall>(k, v) \<in> set h'. in_scope e k allow block = Inr (True, v) \<and> k \<in> S)"
  using assms
proof (induction smaps arbitrary: h)
  case Nil
  then show ?case by simp
next
  case (Cons sm sms)
  from Cons.prems(1) obtain urls where p: "parse_sitemap limit e sm = Some (Inr urls)"
    by (cases "parse_sitemap limit e sm") (auto split: sum.splits)
  with Cons.prems(1) obtain h1 where r: "record_sitemap_urls e base allow block urls h = Inr h1"
    and rest: "sitemap_phase limit e base allow block sms h1 = Some (Inr h')"
    by (cases "record_sitemap_urls e base allow block urls h") auto
  from Cons.prems(4) p have "{u \<in> set urls. same_domain e base u = Inr True} \<subseteq> S" by simp
  from record_sitemap_urls_inv [OF r Cons.prems(2,3) this]
  have 1: "distinct (map fst h1)"
    "\<forall>(k, v) \<in> set h1. in_scope e k allow block = Inr (True, v) \<and> k \<in> S"
    by blast+
  from Cons.prems(4) have "\<forall>sm \<in> set sms. \<forall>urls. parse_sitemap limit e sm = Some (Inr urls)
           \<longrightarrow> {u \<in> set urls. same_domain e base u = Inr True} \<subseteq> S"
    by simp
  from Cons.IH [OF rest 1 this] show ?case .
qed

lemma bfs_step_hits_ok:
  assumes "hits_ok e allow block S st"
  shows "hits_ok e allow block S (bfs_step e base allow block max_depth throttle st)"
proof (cases rule: bfs_step_cases [of st e base allow block max_depth throttle])
  case empty
  with assms show ?thesis by simp
next
  case (skip url d rest)
  with assms show ?thesis by (simp add: hits_ok_def)
next
  case (visit url d rest st' r)
  from visit_try_effect [OF visit(4)]
  have f: "fetched (trace st') = fetched (trace st) @ [url]"
    and h: "hits st' = hits st
         \<or> (\<exists>can ent. page_canonical e url = Some can
                  \<and> in_scope e can allow block = Inr (True, ent)
                  \<and> hits st' = AList.update can ent (hits st))"
    by simp_all
  from h have "hits_ok e allow block S st'"
  proof
    assume "hits st' = hits st"
    with assms f show ?thesis by (fastforce simp: hits_ok_def)
  next
    assume "\<exists>can ent. page_canonical e url = Some can
                  \<and> in_scope e can allow block = Inr (True, ent)
                  \<and> hits st' = AList.update can ent (hits st)"
    then obtain can ent where c: "page_canonical e url = Some can"
        "in_scope e can allow block = Inr (True, ent)"
        "hits st' = AList.update can ent (hits st)"
      by blast
    have d: "distinct (map fst (hits st'))"
      using assms c(3) by (simp add: hits_ok_def distinct_update)
    have "\<forall>(k, v) \<in> set (hits st'). in_scope e k allow block = Inr (True, v)
            \<and> (k \<in> S \<or> (\<exists>u \<in> set (fetched (trace st')). page_canonical e u = Some k))"
    proof (clarify)
      fix k v assume kv: "(k, v) \<in> set (hits st')"
      with c(3) set_update_subset [of can ent "hits st"]
      have "(k, v) = (can, ent) \<or> (k, v) \<in> set (hits st)" by auto
      then show "in_scope e k allow block = Inr (True, v)
            \<and> (k \<in> S \<or> (\<exists>u \<in> set (fetched (trace st')). page_canonical e u = Some k))"
      proof
        assume "(k, v) = (can, ent)"
        with c f show ?thesis by auto
      next
        assume "(k, v) \<in> set (hits st)"
        with assms f show ?thesis by (fastforce simp: hits_ok_def)
      qed
    qed
    with d show ?thesis by (simp add: hits_ok_def)
  qed
  with visit(5) show ?thesis by simp
qed

lemma bfs_hits_ok:
  "hits_ok e allow block S st \<Longrightarrow> hits_ok e allow block S (bfs e base allow block max_depth throttle st)"
  by (rule bfs_induct_invariant [where P = "hits_ok e allow block S"], rule bfs_step_hits_ok)

lemma sitemap_urls_member:
  assumes "robots_sitemaps e base = Inr smaps" and "sm \<in> set smaps"
    and "parse_sitemap limit e sm = Some (Inr urls)"
  shows "set urls \<subseteq> set (sitemap_urls limit e base)"
  using assms by (force  simp: sitemap_urls_def)

text \<open>
  C6 (as amended). The keys of the hit map are distinct. Every key is classified in scope,
  with the entity stored for it, and is either a same-domain URL listed by a sitemap,
  recorded as listed (it is not requested, and no canonical URL is computed for it), or
  the canonical URL computed for a page the loop requested.
\<close>

theorem hit_map_keys:
  assumes "discover_all_run limit e base seeds allow block max_depth throttle = Some (Inr st)"
  shows "distinct (map fst (hits st))
         \<and> (\<forall>(k, v) \<in> set (hits st).
               in_scope e k allow block = Inr (True, v)
               \<and> ((k \<in> set (sitemap_urls limit e base) \<and> same_domain e base k = Inr True)
                  \<or> (\<exists>u \<in> set (fetched (trace st)). page_canonical e u = Some k)))"
proof -
  let ?S = "{k \<in> set (sitemap_urls limit e base). same_domain e base k = Inr True}"
  from discover_all_run_bfs [OF assms] obtain smaps h qu where
    rob: "robots_sitemaps e base = Inr smaps"
    and ph: "sitemap_phase limit e base allow block smaps [] = Some (Inr h)"
    and st: "st = bfs e base allow block max_depth throttle \<lparr>seen = {}, hits = h, q = qu, trace = []\<rparr>"
    by blast
  have "\<forall>sm \<in> set smaps. \<forall>urls. parse_sitemap limit e sm = Some (Inr urls)
           \<longrightarrow> {u \<in> set urls. same_domain e base u = Inr True} \<subseteq> ?S"
    using sitemap_urls_member [OF rob] by blast
  with sitemap_phase_inv [OF ph, of ?S]
  have "distinct (map fst h)"
    "\<forall>(k, v) \<in> set h. in_scope e k allow block = Inr (True, v) \<and> k \<in> ?S"
    by simp_all
  then have "hits_ok e allow block ?S \<lparr>seen = {}, hits = h, q = qu, trace = []\<rparr>"
    by (auto simp: hits_ok_def)
  then have "hits_ok e allow block ?S st" unfolding st by (rule bfs_hits_ok)
  then show ?thesis by (auto simp: hits_ok_def)
qed

text \<open>On the example site the sitemap lists the plan page under its tracking query and the
  page declares its canonical URL: the hit map holds both keys for the one page, and the
  first is not its canonical URL.\<close>

theorem hit_map_keys_counterexample:
  "discover_all 4 site_env ''https://example.com'' [''https://example.com/''] site_allow site_block 2 0.75
     = Some (Inr [(''https://example.com/plans/unlimited?ref=sm'', Some ''plan''),
                  (''https://example.com/plans/unlimited'', Some ''plan''),
                  (''https://example.com/plans/family'', Some ''plan'')])
   \<and> page_canonical site_env ''https://example.com/plans/unlimited?ref=sm''
     = Some ''https://example.com/plans/unlimited''"
  by code_simp

theorem hit_map_keys_witness:
  "\<exists>st. discover_all_run 4 site_env ''https://example.com'' [''https://example.com/'']
           site_allow site_block 2 0.75 = Some (Inr st)
        \<and> map fst (hits st) = [''https://example.com/plans/unlimited?ref=sm'',
             ''https://example.com/plans/unlimited'', ''https://example.com/plans/family'']
        \<and> distinct (map fst (hits st))
        \<and> in_scope site_env ''https://example.com/plans/unlimited'' site_allow site_block
            = Inr (True, Some ''plan'')"
proof -
  have "map_option (map_sum id hits)
      (discover_all_run 4 site_env ''https://example.com'' [''https://example.com/'']
         site_allow site_block 2 0.75)
      = Some (Inr [(''https://example.com/plans/unlimited?ref=sm'', Some ''plan''),
                  (''https://example.com/plans/unlimited'', Some ''plan''),
                  (''https://example.com/plans/family'', Some ''plan'')])"
    by code_simp
  then obtain st where st: "discover_all_run 4 site_env ''https://example.com''
        [''https://example.com/''] site_allow site_block 2 0.75 = Some (Inr st)"
      "hits st = [(''https://example.com/plans/unlimited?ref=sm'', Some ''plan''),
                  (''https://example.com/plans/unlimited'', Some ''plan''),
                  (''https://example.com/plans/family'', Some ''plan'')]"
    by (cases "discover_all_run 4 site_env ''https://example.com'' [''https://example.com/'']
         site_allow site_block 2 0.75") (auto simp: map_sum_def split: sum.splits)
  from hit_map_keys [OF st(1)] have d: "distinct (map fst (hits st))"
    and a: "\<forall>(k, v) \<in> set (hits st). in_scope site_env k site_allow site_block = Inr (True, v)"
    by auto
  from a st(2) have "in_scope site_env ''https://example.com/plans/unlimited'' site_allow site_block
            = Inr (True, Some ''plan'')"
    by simp
  with st d show ?thesis by auto
qed

section \<open>Politeness delay\<close>

text \<open>
  C4. On the example site, with a first seed answered 404, a second whose request raises
  and a third that is served, \<open>discover_all\<close> makes the three requests one after the other
  and sleeps only after the third. \<open>crawl\<close> of crawler.py sleeps after a page answered 404.
\<close>

theorem politeness_delay_skipped:
  "map_option (map_sum id trace)
     (discover_all_run 4 site_env ''https://example.com''
        [''https://example.com/old'', ''https://example.com/nowhere'', ''https://example.com/plans/family'']
        site_allow site_block 2 0.75)
     = Some (Inr [Fetch ''https://example.com/old'', Fetch ''https://example.com/nowhere'',
                  Fetch ''https://example.com/plans/family'', Sleep 0.75])
   \<and> map_sum id (\<lambda>(rs, vis, ev). ev) (crawl site_crawler_env {} ''https://example.com/old'' 20 2)
     = Inr [Fetch ''https://example.com/old'', Sleep 1]"
  by code_simp

section \<open>Canonical URL\<close>

text \<open>
  C5. On the example site \<open>/promo\<close> is served from \<open>/plans/promo\<close> and declares no canonical
  link. \<open>discover_all\<close> takes the requested address as canonical, not the served one:
  the page, in scope under the address that served it, is not recorded. The browser
  scripts take the served address.
\<close>

theorem served_url_ignored:
  "map_sum id url_served (http_get site_env ''https://example.com/promo'')
     = Inr ''https://example.com/plans/promo''
   \<and> page_canonical site_env ''https://example.com/promo'' = Some ''https://example.com/promo''
   \<and> in_scope site_env ''https://example.com/plans/promo'' site_allow site_block
     = Inr (True, Some ''plan'')
   \<and> discover_all 4 site_env ''https://example.com'' [''https://example.com/promo'']
       site_allow site_block 2 0.75
     = Some (Inr [(''https://example.com/plans/unlimited?ref=sm'', Some ''plan'')])
   \<and> cdp_canonical_url site_env ''https://example.com/plans/promo'' None
     = Inr ''https://example.com/plans/promo''"
  by code_simp

section \<open>The visited set\<close>

text \<open>
  C9 (as amended). \<open>discover_all\<close> starts its loop from the empty set \<open>seen\<close>; an iteration of
  the loop, and so the loop, only adds to it; the set is local to the call. In crawler.py
  the set \<open>visited\<close> is a global of the module: an iteration of the loop of \<open>crawl\<close> only
  adds to it, and a call of \<open>crawl\<close> leaves in it what it found there and what it visited.
\<close>

theorem visited_set_scope:
  "(discover_all_run limit e base seeds allow block max_depth throttle = Some (Inr st)
      \<longrightarrow> (\<exists>h qu. st = bfs e base allow block max_depth throttle
                          \<lparr>seen = {}, hits = h, q = qu, trace = []\<rparr>))
   \<and> seen s \<subseteq> seen (bfs_step e base allow block max_depth throttle s)
   \<and> seen s \<subseteq> seen (bfs e base allow block max_depth throttle s)
   \<and> visited c \<subseteq> visited (crawl_step ce domain max_depth' c)
   \<and> (crawl ce vis start_url max_pages max_depth' = Inr (rs, vis', ev)
      \<longrightarrow> vis \<subseteq> vis' \<and> set (fetched ev) \<subseteq> vis' - vis)"
  using discover_all_run_bfs [of limit e base seeds allow block max_depth throttle st]
    bfs_step_seen_mono [of s e base allow block max_depth throttle]
    bfs_seen_mono [of s e base allow block max_depth throttle]
    crawl_step_visited_mono [of c ce domain max_depth']
    crawl_result [of ce vis start_url max_pages max_depth' rs vis' ev]
  by blast

text \<open>Two calls of \<open>crawl\<close> in one process, on the example site: the first visits the home
  page; the second starts from the set the first left and returns nothing.\<close>

theorem visited_set_scope_counterexample:
  "crawl site_crawler_env {} ''https://example.com/'' 20 0
     = Inr ([\<lparr>pd_url = ''https://example.com/'', pd_title = ''Example'',
               pd_content = ''Welcome to the site'',
               pd_images = [''https://example.com/logo.png''],
               pd_all_links = [''https://example.com/about'', ''https://other.org/x'']\<rparr>],
            {''https://example.com/''},
            [Fetch ''https://example.com/'', Download ''https://example.com/logo.png'', Sleep 1])
   \<and> crawl site_crawler_env {''https://example.com/''} ''https://example.com/'' 20 0
     = Inr ([], {''https://example.com/''}, [])"
  by code_simp

theorem visited_set_scope_witness:
  "(\<exists>st h qu. discover_all_run 4 site_env ''https://example.com'' [''https://example.com/'']
        site_allow site_block 2 0.75 = Some (Inr st)
      \<and> st = bfs site_env ''https://example.com'' site_allow site_block 2 0.75
                \<lparr>seen = {}, hits = h, q = qu, trace = []\<rparr>)
   \<and> (\<exists>rs vis' ev. crawl site_crawler_env {''https://example.com/about''} ''https://example.com/'' 20 2
        = Inr (rs, vis', ev)
      \<and> {''https://example.com/about''} \<subseteq> vis'
      \<and> fetched ev = [''https://example.com/''])"
proof -
  have "map_option isl
      (discover_all_run 4 site_env ''https://example.com'' [''https://example.com/'']
         site_allow site_block 2 0.75) = Some False"
    by code_simp
  then obtain r where r: "discover_all_run 4 site_env ''https://example.com''
        [''https://example.com/''] site_allow site_block 2 0.75 = Some r" "\<not> isl r"
    by (cases "discover_all_run 4 site_env ''https://example.com'' [''https://example.com/'']
         site_allow site_block 2 0.75") auto
  then obtain st where st: "discover_all_run 4 site_env ''https://example.com''
        [''https://example.com/''] site_allow site_block 2 0.75 = Some (Inr st)"
    by (cases r) auto
  have "map_sum id (\<lambda>(rs, vis, ev). fetched ev)
      (crawl site_crawler_env {''https://example.com/about''} ''https://example.com/'' 20 2)
      = Inr [''https://example.com/'']"
    by code_simp
  then obtain rs v ev where cr: "crawl site_crawler_env {''https://example.com/about''}
        ''https://example.com/'' 20 2 = Inr (rs, v, ev)" "fetched ev = [''https://example.com/'']"
    by (cases "crawl site_crawler_env {''https://example.com/about''} ''https://example.com/'' 20 2")
      (auto simp: map_sum_def split: sum.splits)
  note t = visited_set_scope [where limit = 4 and e = site_env and st = st
      and base = "''https://example.com''" and seeds = "[''https://example.com/'']"
      and allow = site_allow and block = site_block and max_depth = 2 and throttle = "0.75"
      and ce = site_crawler_env and vis = "{''https://example.com/about''}"
      and start_url = "''https://example.com/''" and max_pages = 20 and max_depth' = 2
      and rs = rs and vis' = v and ev = ev]
  from t [THEN conjunct1] st obtain h qu where
    "st = bfs site_env ''https://example.com'' site_allow site_block 2 0.75
                \<lparr>seen = {}, hits = h, q = qu, trace = []\<rparr>"
    by blast
  moreover from t [THEN conjunct2, THEN conjunct2, THEN conjunct2, THEN conjunct2] cr(1)
  have "{''https://example.com/about''} \<subseteq> v" by blast
  ultimately show ?thesis using st cr by blast
qed

end
